theory Spec2Isabelle
  imports Main
begin

section \<open>Modelling conventions\<close>

text \<open>
  The development embeds the virtual-DOM runtime of the bundle
  (\<^verbatim>\<open>src/unnamed/part_000\<close>) function by function.

  \<^item> A JavaScript object that the code uses as a dictionary (\<^verbatim>\<open>___lookup\<close>,
    \<^verbatim>\<open>keySequences\<close>, \<^verbatim>\<open>___changes\<close>) is created by \<^verbatim>\<open>{}\<close> and inherits the
    members of \<^verbatim>\<open>Object.prototype\<close>.  The model keeps its own properties; where
    the code reads or writes a name that an inherited member answers, the model
    says what the inherited member does.
  \<^item> Objects that the code mutates through references (virtual nodes, builders)
    live in explicit stores indexed by natural numbers.
  \<^item> A \<^verbatim>\<open>throw\<close> is a value: functions that can throw return a completion
    together with the state reached when the exception left the function.
  \<^item> Listener and handler bodies are user code; an invocation is recorded in a log.
\<close>

datatype js_error = TypeError | Error string

datatype 'a completion = Normal 'a | Throw js_error


section \<open>KeySequence\<close>

text \<open>Decimal rendering of a counter, as string concatenation with a number does.\<close>

definition digit :: "nat \<Rightarrow> char" where
  "digit d = (''0123456789'' ! d)"

fun toString :: "nat \<Rightarrow> string" where
  "toString n = (if n < 10 then [digit n] else toString (n div 10) @ [digit (n mod 10)])"

declare toString.simps [simp del]

text \<open>
  \<^verbatim>\<open>function KeySequence() { this.___lookup = {}; }\<close>: the only field is the lookup
  table; the model keeps its own properties, from literal keys to the next index.
\<close>

type_synonym KeySequence = "string \<rightharpoonup> nat"

definition KeySequence_new :: KeySequence where
  "KeySequence_new = Map.empty"

text \<open>
  \<^verbatim>\<open>
  ___nextKey: function(key) {
      var lookup = this.___lookup;
      var currentIndex = lookup[key]++;
      if (!currentIndex) {
          lookup[key] = 1;
          currentIndex = 0;
          return key;
      } else {
          return key + "_" + currentIndex;
      }
  }
  \<close>
  For a key that is not an own property the post-increment reads \<^verbatim>\<open>undefined\<close>, or
  the inherited function when the key names one; either converts to \<^verbatim>\<open>NaN\<close>
  (falsy), and the branch stores \<open>1\<close> as an own property.  For the key
  \<^verbatim>\<open>__proto__\<close> the read gives the prototype object (\<^verbatim>\<open>NaN\<close> again) and both
  assignments go to the inherited accessor, which ignores a number: nothing is
  stored, and every call takes the first branch.  The function returns the key
  and the updated sequence.  The index is a natural number; the code's number is
  exact below \<open>2\<^sup>5\<^sup>3\<close> calls with one key.
\<close>

definition nextKey :: "KeySequence \<Rightarrow> string \<Rightarrow> string \<times> KeySequence" where
  "nextKey lookup key =
     (if key = ''__proto__'' then (key, lookup)
      else
        (case lookup key of
           None \<Rightarrow> (key, lookup(key \<mapsto> 1))
         | Some currentIndex \<Rightarrow>
             (if currentIndex = 0 then (key, lookup(key \<mapsto> 1))
              else (key @ ''_'' @ toString currentIndex, lookup(key \<mapsto> Suc currentIndex)))))"

text \<open>A run of calls on one sequence: the keys handed out, in call order.\<close>

fun nextKeys :: "KeySequence \<Rightarrow> string list \<Rightarrow> string list \<times> KeySequence" where
  "nextKeys lookup [] = ([], lookup)"
| "nextKeys lookup (k # ks) =
     (let (r, lookup1) = nextKey lookup k;
          (rs, lookup2) = nextKeys lookup1 ks
      in (r # rs, lookup2))"









subsection \<open>Properties of the key sequence\<close>






lemma nextKeys_length: "length (fst (nextKeys lookup ks)) = length ks"
  by (induction ks arbitrary: lookup) (auto simp: split_beta)


lemma nextKeys_example:
  "fst (nextKeys KeySequence_new [''a'', ''b'', ''a'', ''a'', ''b'']) =
     [''a'', ''b'', ''a_1'', ''a_2'', ''b_1'']"
  by (simp add: KeySequence_new_def nextKey_def toString.simps digit_def)




section \<open>Virtual nodes\<close>

text \<open>
  \<^verbatim>\<open>VNode\<close> and its variants.  A node is a record in a heap; the links
  \<^verbatim>\<open>___firstChildInternal\<close>, \<^verbatim>\<open>___lastChild\<close>, \<^verbatim>\<open>___parentNode\<close> and
  \<^verbatim>\<open>___nextSiblingInternal\<close> are references.  \<^verbatim>\<open>___Text\<close> is set on text nodes
  only and \<^verbatim>\<open>___DocumentFragment\<close> on \<^verbatim>\<open>VDocumentFragment\<close> only (node type 11);
  \<^verbatim>\<open>VFragment\<close> (node type 12) does not carry it.
\<close>

datatype nodeType = ELEMENT_NODE | COMPONENT_NODE | TEXT_NODE | COMMENT_NODE
  | DOCUMENT_FRAGMENT_NODE | FRAGMENT_NODE

record VNode =
  nodeType :: nodeType
  nodeName :: "string option"
  nodeValue :: string
  preserve :: bool
  finalChildCount :: "int option"
  childCount :: int
  firstChildInternal :: "nat option"
  lastChild :: "nat option"
  parentNode :: "nat option"
  nextSiblingInternal :: "nat option"
  valueInternal :: "string option"
  preserveTextAreaValue :: bool

text \<open>\<^verbatim>\<open>___VNode(finalChildCount)\<close> and the constructors of the variants.\<close>

definition VNode_init :: "nodeType \<Rightarrow> int option \<Rightarrow> VNode" where
  "VNode_init t n =
     \<lparr> nodeType = t, nodeName = None, nodeValue = [], preserve = False,
       finalChildCount = n, childCount = 0,
       firstChildInternal = None, lastChild = None, parentNode = None,
       nextSiblingInternal = None, valueInternal = None, preserveTextAreaValue = False \<rparr>"

definition VElement :: "string \<Rightarrow> int option \<Rightarrow> VNode" where
  "VElement tagName n = (VNode_init ELEMENT_NODE n)\<lparr> nodeName := Some tagName \<rparr>"

definition VText :: "string \<Rightarrow> VNode" where
  "VText v = (VNode_init TEXT_NODE (Some (- 1)))\<lparr> nodeValue := v \<rparr>"

definition VComment :: "string \<Rightarrow> VNode" where
  "VComment v = (VNode_init COMMENT_NODE (Some (- 1)))\<lparr> nodeValue := v \<rparr>"

definition VDocumentFragment :: VNode where
  "VDocumentFragment = VNode_init DOCUMENT_FRAGMENT_NODE None"

definition VComponent :: "bool \<Rightarrow> VNode" where
  "VComponent p = (VNode_init COMPONENT_NODE None)\<lparr> preserve := p \<rparr>"

definition VFragment :: "bool \<Rightarrow> VNode" where
  "VFragment p = (VNode_init FRAGMENT_NODE None)\<lparr> preserve := p \<rparr>"

type_synonym vheap = "nat \<Rightarrow> VNode"

definition is_Text :: "VNode \<Rightarrow> bool" where
  "is_Text v = (nodeType v = TEXT_NODE)"

definition is_DocumentFragment :: "VNode \<Rightarrow> bool" where
  "is_DocumentFragment v = (nodeType v = DOCUMENT_FRAGMENT_NODE)"

subsection \<open>\<^verbatim>\<open>___appendChild\<close>\<close>

text \<open>
  \<^verbatim>\<open>
  ___appendChild: function(child) {
      this.___childCount++;
      if (this.___nodeName === "textarea") {
          if (child.___Text) {
              var childValue = child.___nodeValue;
              this.___valueInternal = (this.___valueInternal || "") + childValue;
          } else if (child.___preserve) {
              this.___preserveTextAreaValue = true;
          } else {
              throw TypeError();
          }
      } else {
          var lastChild = this.___lastChild;
          child.___parentNode = this;
          if (lastChild) { lastChild.___nextSiblingInternal = child; }
          else { this.___firstChildInternal = child; }
          this.___lastChild = child;
      }
      return child;
  }
  \<close>
  The assignments are applied to the heap in source order, so the model is right
  also when \<open>this\<close>, \<open>child\<close> and the last child are the same reference.
\<close>

definition appendChild :: "vheap \<Rightarrow> nat \<Rightarrow> nat \<Rightarrow> nat completion \<times> vheap" where
  "appendChild h this child =
     (let h1 = h(this := (h this)\<lparr> childCount := childCount (h this) + 1 \<rparr>) in
      if nodeName (h1 this) = Some ''textarea'' then
        (if is_Text (h1 child) then
           (let childValue = nodeValue (h1 child);
                old = (case valueInternal (h1 this) of None \<Rightarrow> [] | Some v \<Rightarrow> v)
            in (Normal child, h1(this := (h1 this)\<lparr> valueInternal := Some (old @ childValue) \<rparr>)))
         else if preserve (h1 child) then
           (Normal child, h1(this := (h1 this)\<lparr> preserveTextAreaValue := True \<rparr>))
         else (Throw TypeError, h1))
      else
        (let lastChild0 = lastChild (h1 this);
             h2 = h1(child := (h1 child)\<lparr> parentNode := Some this \<rparr>);
             h3 = (case lastChild0 of
                     Some l \<Rightarrow> h2(l := (h2 l)\<lparr> nextSiblingInternal := Some child \<rparr>)
                   | None \<Rightarrow> h2(this := (h2 this)\<lparr> firstChildInternal := Some child \<rparr>));
             h4 = h3(this := (h3 this)\<lparr> lastChild := Some child \<rparr>)
         in (Normal child, h4)))"

text \<open>The four links of a node, to say that a call leaves the child list alone.\<close>

definition links :: "VNode \<Rightarrow> nat option \<times> nat option \<times> nat option \<times> nat option" where
  "links v = (firstChildInternal v, lastChild v, parentNode v, nextSiblingInternal v)"

text \<open>Heaps for the examples: cells are allocated, then linked by \<open>appendChild\<close>.\<close>

definition empty_heap :: vheap where
  "empty_heap = (\<lambda>_. VDocumentFragment)"

fun append_all :: "vheap \<Rightarrow> (nat \<times> nat) list \<Rightarrow> vheap" where
  "append_all h [] = h"
| "append_all h ((p, c) # ps) = append_all (snd (appendChild h p c)) ps"

definition textarea_heap :: vheap where
  "textarea_heap =
     empty_heap(0 := VElement ''textarea'' None, 1 := VText ''ab'', 2 := VElement ''b'' (Some 0),
                3 := VElement ''div'' None, 4 := VText ''cd'')"

lemmas heap_simps = appendChild_def Let_def VElement_def VText_def VComment_def VFragment_def
  VDocumentFragment_def VNode_init_def is_Text_def is_DocumentFragment_def empty_heap_def

text \<open>
  Claim C3.  On a node named \<^verbatim>\<open>textarea\<close>, appending a child that is neither a
  text node nor flagged preserve throws a \<^verbatim>\<open>TypeError\<close>; appending a text node
  returns normally, appends the text to the accumulated value (the empty string
  when there was none) and changes no link of any node.  On every other parent the
  call returns normally and the child is the new last child: the parent's last-child
  link and the child's parent link are set, and the child follows the old last child,
  or is the first child when there was none.
\<close>

theorem appendChild_textarea_leaf:
  "(nodeName (h this) = Some ''textarea'' \<and> \<not> is_Text (h child) \<and> \<not> preserve (h child)
      \<longrightarrow> fst (appendChild h this child) = Throw TypeError)
   \<and> (nodeName (h this) = Some ''textarea'' \<and> is_Text (h child)
      \<longrightarrow> fst (appendChild h this child) = Normal child
        \<and> valueInternal (snd (appendChild h this child) this) =
            Some ((case valueInternal (h this) of None \<Rightarrow> [] | Some v \<Rightarrow> v) @ nodeValue (h child))
        \<and> (\<forall>n. links (snd (appendChild h this child) n) = links (h n)))
   \<and> (nodeName (h this) \<noteq> Some ''textarea''
      \<longrightarrow> fst (appendChild h this child) = Normal child
        \<and> lastChild (snd (appendChild h this child) this) = Some child
        \<and> parentNode (snd (appendChild h this child) child) = Some this
        \<and> (case lastChild (h this) of
              Some l \<Rightarrow> nextSiblingInternal (snd (appendChild h this child) l) = Some child
            | None \<Rightarrow> firstChildInternal (snd (appendChild h this child) this) = Some child))"
  by (auto simp: appendChild_def Let_def links_def is_Text_def split: option.splits)

theorem appendChild_textarea_leaf_witness:
  "fst (appendChild textarea_heap 0 2) = Throw TypeError
   \<and> fst (appendChild textarea_heap 0 1) = Normal 1
   \<and> valueInternal (snd (appendChild textarea_heap 0 1) 0) = Some ''ab''
   \<and> valueInternal (snd (appendChild (snd (appendChild textarea_heap 0 1)) 0 4) 0) = Some ''abcd''
   \<and> firstChildInternal (snd (appendChild textarea_heap 0 1) 0) = None
   \<and> fst (appendChild textarea_heap 3 2) = Normal 2
   \<and> firstChildInternal (snd (appendChild textarea_heap 3 2) 3) = Some 2
   \<and> lastChild (snd (appendChild textarea_heap 3 2) 3) = Some 2
   \<and> parentNode (snd (appendChild textarea_heap 3 2) 2) = Some 3"
  using appendChild_textarea_leaf[of textarea_heap 0 2]
    appendChild_textarea_leaf[of textarea_heap 0 1]
    appendChild_textarea_leaf[of textarea_heap 3 2]
  by (simp add: textarea_heap_def heap_simps)

subsection \<open>The getters \<^verbatim>\<open>___firstChild\<close> and \<^verbatim>\<open>___nextSibling\<close>\<close>

text \<open>
  \<^verbatim>\<open>
  get ___firstChild() {
      var firstChild = this.___firstChildInternal;
      if (firstChild && firstChild.___DocumentFragment) {
          var nestedFirstChild = firstChild.___firstChild;
          return nestedFirstChild || firstChild.___nextSibling;
      }
      return firstChild;
  }
  get ___nextSibling() {
      var nextSibling = this.___nextSiblingInternal;
      if (nextSibling) {
          if (nextSibling.___DocumentFragment) {
              var firstChild = nextSibling.___firstChild;
              return firstChild || nextSibling.___nextSibling;
          }
      } else {
          var parentNode = this.___parentNode;
          if (parentNode && parentNode.___DocumentFragment) {
              return parentNode.___nextSibling;
          }
      }
      return nextSibling;
  }
  \<close>
  The getters call each other and follow links of the heap, so on a heap with a
  cycle they need not return: they are one partial function on a tagged argument
  (\<open>Inl\<close> for \<^verbatim>\<open>___firstChild\<close>, \<open>Inr\<close> for \<^verbatim>\<open>___nextSibling\<close>), with value \<open>None\<close>
  when the call does not return, \<open>Some None\<close> for \<^verbatim>\<open>null\<close> and \<open>Some (Some r)\<close> for
  a node.
\<close>

partial_function (option) walk :: "vheap \<Rightarrow> nat + nat \<Rightarrow> nat option option" where
  "walk h q =
     (case q of
        Inl this \<Rightarrow>
          (case firstChildInternal (h this) of
             None \<Rightarrow> Some None
           | Some firstChild \<Rightarrow>
               if is_DocumentFragment (h firstChild) then
                 Option.bind (walk h (Inl firstChild)) (\<lambda>nestedFirstChild.
                   case nestedFirstChild of
                     Some c \<Rightarrow> Some (Some c)
                   | None \<Rightarrow> walk h (Inr firstChild))
               else Some (Some firstChild))
      | Inr this \<Rightarrow>
          (case nextSiblingInternal (h this) of
             Some nextSibling \<Rightarrow>
               if is_DocumentFragment (h nextSibling) then
                 Option.bind (walk h (Inl nextSibling)) (\<lambda>firstChild.
                   case firstChild of
                     Some c \<Rightarrow> Some (Some c)
                   | None \<Rightarrow> walk h (Inr nextSibling))
               else Some (Some nextSibling)
           | None \<Rightarrow>
               (case parentNode (h this) of
                  Some parent \<Rightarrow>
                    if is_DocumentFragment (h parent) then walk h (Inr parent) else Some None
                | None \<Rightarrow> Some None)))"

definition firstChild :: "vheap \<Rightarrow> nat \<Rightarrow> nat option option" where
  "firstChild h this = walk h (Inl this)"

definition nextSibling :: "vheap \<Rightarrow> nat \<Rightarrow> nat option option" where
  "nextSibling h this = walk h (Inr this)"

text \<open>
  The loop of every caller: \<^verbatim>\<open>cur = node.___firstChild; while (cur) { ...;
  cur = cur.___nextSibling; }\<close>.  \<open>childNodes\<close> is the list of nodes it visits.
\<close>

partial_function (option) siblings_from :: "vheap \<Rightarrow> nat option \<Rightarrow> nat list option" where
  "siblings_from h cur =
     (case cur of
        None \<Rightarrow> Some []
      | Some c \<Rightarrow>
          Option.bind (nextSibling h c) (\<lambda>n.
            Option.bind (siblings_from h n) (\<lambda>rest. Some (c # rest))))"

definition childNodes :: "vheap \<Rightarrow> nat \<Rightarrow> nat list option" where
  "childNodes h this = Option.bind (firstChild h this) (siblings_from h)"

text \<open>
  What both getters do with a link \<open>c\<close> they found: a document fragment is
  replaced by its own first child, or by what follows it when it has none.
\<close>

definition enter :: "vheap \<Rightarrow> nat \<Rightarrow> nat option option" where
  "enter h c =
     (if is_DocumentFragment (h c) then
        Option.bind (firstChild h c)
          (\<lambda>r. case r of Some x \<Rightarrow> Some (Some x) | None \<Rightarrow> nextSibling h c)
      else Some (Some c))"

text \<open>
  A heap holds a tree when the links of its nodes are those of the tree: \<open>Sh r cs\<close>
  is the node at reference \<open>r\<close> with the children \<open>cs\<close>.  The flattened children of
  a node are its children with every document fragment replaced, recursively, by
  its own flattened children.
\<close>

datatype shape = Sh nat "shape list"

fun ref :: "shape \<Rightarrow> nat" where
  "ref (Sh r cs) = r"

fun first_ref :: "shape list \<Rightarrow> nat option" where
  "first_ref [] = None"
| "first_ref (c # cs) = Some (ref c)"

fun rep_node :: "vheap \<Rightarrow> nat option \<Rightarrow> nat option \<Rightarrow> shape \<Rightarrow> bool"
  and rep_list :: "vheap \<Rightarrow> nat option \<Rightarrow> shape list \<Rightarrow> bool" where
  "rep_node h p nxt (Sh r cs) =
     (parentNode (h r) = p \<and> nextSiblingInternal (h r) = nxt \<and>
      firstChildInternal (h r) = first_ref cs \<and> rep_list h (Some r) cs)"
| "rep_list h p [] = True"
| "rep_list h p (c # cs) = (rep_node h p (first_ref cs) c \<and> rep_list h p cs)"

fun flat_node :: "vheap \<Rightarrow> shape \<Rightarrow> nat list"
  and flat_list :: "vheap \<Rightarrow> shape list \<Rightarrow> nat list" where
  "flat_node h (Sh r cs) = (if is_DocumentFragment (h r) then flat_list h cs else [r])"
| "flat_list h [] = []"
| "flat_list h (c # cs) = flat_node h c @ flat_list h cs"

definition hd_opt :: "'a list \<Rightarrow> 'a option" where
  "hd_opt xs = (case xs of [] \<Rightarrow> None | x # _ \<Rightarrow> Some x)"

text \<open>
  The way out of the children of \<open>p\<close>: nothing follows the last child of an
  ordinary parent; after the last child of a document fragment come the nodes \<open>K\<close>
  that follow the fragment.
\<close>

definition exit_ok :: "vheap \<Rightarrow> nat \<Rightarrow> nat list \<Rightarrow> bool" where
  "exit_ok h p K =
     (if is_DocumentFragment (h p)
      then nextSibling h p = Some (hd_opt K) \<and> siblings_from h (hd_opt K) = Some K
      else K = [])"

definition node_ok :: "vheap \<Rightarrow> shape \<Rightarrow> bool" where
  "node_ok h t =
     (\<forall>p nxt K. rep_node h p nxt t \<and>
        (is_DocumentFragment (h (ref t)) \<longrightarrow> exit_ok h (ref t) K) \<longrightarrow>
        (case t of Sh r cs \<Rightarrow>
           let K' = (if is_DocumentFragment (h r) then K else []) in
           firstChild h r = Some (if cs = [] then None else hd_opt (flat_list h cs @ K')) \<and>
           (cs \<noteq> [] \<longrightarrow>
              siblings_from h (hd_opt (flat_list h cs @ K')) = Some (flat_list h cs @ K'))))"

definition forest_ok :: "vheap \<Rightarrow> shape list \<Rightarrow> bool" where
  "forest_ok h cs =
     (\<forall>p K. rep_list h (Some p) cs \<and> exit_ok h p K \<and> cs \<noteq> [] \<longrightarrow>
        enter h (ref (hd cs)) = Some (hd_opt (flat_list h cs @ K)) \<and>
        siblings_from h (hd_opt (flat_list h cs @ K)) = Some (flat_list h cs @ K))"

text \<open>Two heaps built with \<open>appendChild\<close>: fragments and document fragments among
  the children of a \<^verbatim>\<open>div\<close>.\<close>

definition fragment_heap :: vheap where
  "fragment_heap =
     append_all
       (empty_heap(0 := VElement ''div'' None, 1 := VFragment False, 2 := VText ''x'',
                   3 := VFragment False, 4 := VText ''y''))
       [(0, 1), (0, 2), (0, 3), (0, 4)]"

definition docfrag_heap :: vheap where
  "docfrag_heap =
     append_all
       (empty_heap(0 := VElement ''div'' None, 1 := VDocumentFragment, 2 := VText ''x'',
                   3 := VDocumentFragment, 4 := VDocumentFragment, 5 := VComment ''c'',
                   6 := VText ''y''))
       [(0, 1), (0, 2), (0, 3), (3, 4), (3, 5), (0, 6)]"

definition docfrag_children :: "shape list" where
  "docfrag_children = [Sh 1 [], Sh 2 [], Sh 3 [Sh 4 [], Sh 5 []], Sh 6 []]"

subsection \<open>Properties of the getters\<close>

lemma firstChild_eq:
  "firstChild h this =
     (case firstChildInternal (h this) of None \<Rightarrow> Some None | Some f \<Rightarrow> enter h f)"
  unfolding firstChild_def enter_def nextSibling_def
  by (subst walk.simps) (simp split: option.splits)

lemma nextSibling_eq:
  "nextSibling h this =
     (case nextSiblingInternal (h this) of
        Some s \<Rightarrow> enter h s
      | None \<Rightarrow>
          (case parentNode (h this) of
             Some p \<Rightarrow> if is_DocumentFragment (h p) then nextSibling h p else Some None
           | None \<Rightarrow> Some None))"
  unfolding firstChild_def enter_def nextSibling_def
  by (subst walk.simps) (simp split: option.splits)

lemma walk_never_DocumentFragment_aux:
  assumes "walk h q = Some y"
  shows "\<forall>r. y = Some r \<longrightarrow> \<not> is_DocumentFragment (h r)"
proof (rule walk.raw_induct[where P = "\<lambda>h q y. \<forall>r. y = Some r \<longrightarrow> \<not> is_DocumentFragment (h r)"
      and h = h and q = q and y = y], goal_cases)
  case (1 w h q y)
  then show ?case
    by (auto split: sum.splits option.splits if_splits bind_splits)
next
  case 2
  show ?case by (rule assms)
qed

lemma walk_never_DocumentFragment:
  "walk h q = Some (Some r) \<Longrightarrow> \<not> is_DocumentFragment (h r)"
  using walk_never_DocumentFragment_aux by blast

lemma hd_opt_simps [simp]: "hd_opt [] = None" "hd_opt (x # xs) = Some x"
  by (simp_all add: hd_opt_def)

lemma hd_opt_eq_None [simp]: "hd_opt xs = None \<longleftrightarrow> xs = []"
  by (cases xs) auto

lemma siblings_from_None [simp]: "siblings_from h None = Some []"
  by (subst siblings_from.simps) simp

lemma siblings_from_Some:
  "siblings_from h (Some c) =
     Option.bind (nextSibling h c)
       (\<lambda>n. Option.bind (siblings_from h n) (\<lambda>rest. Some (c # rest)))"
  by (subst siblings_from.simps) simp


lemma forest_ok_step:
  assumes c: "node_ok h c" and rest: "forest_ok h rest"
  shows "forest_ok h (c # rest)"
  unfolding forest_ok_def
proof (intro allI impI, elim conjE)
  fix p K
  assume rp: "rep_list h (Some p) (c # rest)" and ex: "exit_ok h p K"
  obtain r cs where c_def: "c = Sh r cs" by (cases c)
  let ?K = "flat_list h rest @ K"
  from rp have rn: "rep_node h (Some p) (first_ref rest) c" and rr: "rep_list h (Some p) rest"
    by simp_all
  have nxt: "nextSibling h r = Some (hd_opt ?K) \<and> siblings_from h (hd_opt ?K) = Some ?K"
  proof (cases rest)
    case Nil
    with rn c_def ex show ?thesis
      by (subst nextSibling_eq) (auto simp: exit_ok_def split: if_splits)
  next
    case (Cons c' rest')
    with rest rr ex have "enter h (ref (hd rest)) = Some (hd_opt ?K)"
      and "siblings_from h (hd_opt ?K) = Some ?K"
      unfolding forest_ok_def by blast+
    with rn c_def Cons show ?thesis
      by (subst nextSibling_eq) auto
  qed
  show "enter h (ref (hd (c # rest))) = Some (hd_opt (flat_list h (c # rest) @ K)) \<and>
        siblings_from h (hd_opt (flat_list h (c # rest) @ K)) = Some (flat_list h (c # rest) @ K)"
  proof (cases "is_DocumentFragment (h r)")
    case False
    with nxt c_def show ?thesis
      by (simp add: enter_def siblings_from_Some)
  next
    case True
    with nxt have "exit_ok h r ?K" by (simp add: exit_ok_def)
    with c rn c_def True have
      fc: "firstChild h r = Some (if cs = [] then None else hd_opt (flat_list h cs @ ?K))"
      and sf: "cs \<noteq> [] \<longrightarrow>
        siblings_from h (hd_opt (flat_list h cs @ ?K)) = Some (flat_list h cs @ ?K)"
      unfolding node_ok_def by (auto simp: Let_def)
    show ?thesis
    proof (cases "cs = []")
      case True
      with fc nxt c_def \<open>is_DocumentFragment (h r)\<close> show ?thesis
        by (simp add: enter_def)
    next
      case False
      let ?F = "flat_list h cs @ ?K"
      from False fc have fc': "firstChild h r = Some (hd_opt ?F)" by simp
      from False sf have sf': "siblings_from h (hd_opt ?F) = Some ?F" by simp
      have fl: "flat_list h (c # rest) @ K = ?F"
        using c_def \<open>is_DocumentFragment (h r)\<close> by simp
      have "enter h r = Some (hd_opt ?F)"
      proof (cases ?F)
        case Nil
        then have "?K = []" by simp
        with nxt Nil fc' \<open>is_DocumentFragment (h r)\<close> show ?thesis
          by (simp add: enter_def)
      next
        case (Cons x xs)
        with fc' \<open>is_DocumentFragment (h r)\<close> show ?thesis
          by (simp add: enter_def)
      qed
      with sf' fl c_def show ?thesis by simp
    qed
  qed
qed

lemma forest_ok_all:
  "(\<forall>c \<in> set cs. node_ok h c) \<Longrightarrow> forest_ok h cs"
proof (induction cs)
  case Nil
  then show ?case by (simp add: forest_ok_def)
next
  case (Cons c cs)
  then show ?case by (simp add: forest_ok_step)
qed

lemma node_ok_all: "node_ok h t"
proof (induction t)
  case (Sh r cs)
  then have f: "forest_ok h cs" by (simp add: forest_ok_all)
  show ?case
    unfolding node_ok_def
  proof (intro allI impI, elim conjE)
    fix p nxt K
    assume rn: "rep_node h p nxt (Sh r cs)"
      and ex: "is_DocumentFragment (h (ref (Sh r cs))) \<longrightarrow> exit_ok h (ref (Sh r cs)) K"
    let ?K' = "if is_DocumentFragment (h r) then K else []"
    have e: "exit_ok h r ?K'"
      using ex by (simp add: exit_ok_def)
    show "case Sh r cs of Sh r cs \<Rightarrow>
           let K' = (if is_DocumentFragment (h r) then K else []) in
           firstChild h r = Some (if cs = [] then None else hd_opt (flat_list h cs @ K')) \<and>
           (cs \<noteq> [] \<longrightarrow>
              siblings_from h (hd_opt (flat_list h cs @ K')) = Some (flat_list h cs @ K'))"
    proof (cases cs)
      case Nil
      with rn show ?thesis by (subst firstChild_eq) simp
    next
      case (Cons c cs')
      from rn have "rep_list h (Some r) cs" by simp
      with f e Cons have "enter h (ref (hd cs)) = Some (hd_opt (flat_list h cs @ ?K'))"
        and "siblings_from h (hd_opt (flat_list h cs @ ?K')) = Some (flat_list h cs @ ?K')"
        using f[unfolded forest_ok_def, rule_format, of r ?K'] by simp_all
      with rn Cons show ?thesis
        by (subst firstChild_eq) (auto simp: Let_def)
    qed
  qed
qed

lemma childNodes_flat:
  assumes "rep_node h p nxt (Sh r cs)"
    and "is_DocumentFragment (h r) \<longrightarrow> p = None \<and> nxt = None"
  shows "childNodes h r = Some (flat_list h cs)"
proof -
  have "is_DocumentFragment (h r) \<longrightarrow> nextSibling h r = Some None"
    using assms by (subst nextSibling_eq) auto
  then have e: "is_DocumentFragment (h (ref (Sh r cs))) \<longrightarrow> exit_ok h (ref (Sh r cs)) []"
    by (simp add: exit_ok_def)
  have "node_ok h (Sh r cs)" by (rule node_ok_all)
  with assms(1) e have "firstChild h r = Some (if cs = [] then None else hd_opt (flat_list h cs))"
    and "cs \<noteq> [] \<longrightarrow> siblings_from h (hd_opt (flat_list h cs)) = Some (flat_list h cs)"
    unfolding node_ok_def by (auto simp: Let_def)
  then show ?thesis
    by (cases "cs = []") (auto simp: childNodes_def)
qed

lemma flat_no_DocumentFragment:
  "x \<in> set (flat_node h t) \<Longrightarrow> \<not> is_DocumentFragment (h x)"
  "x \<in> set (flat_list h ts) \<Longrightarrow> \<not> is_DocumentFragment (h x)"
  by (induction h t and h ts rule: flat_node_flat_list.induct) (auto split: if_splits)

text \<open>
  The claim C6 as the specification states it is about fragment nodes
  (\<^verbatim>\<open>VFragment\<close>).  The getters test \<^verbatim>\<open>___DocumentFragment\<close>, which a
  \<^verbatim>\<open>VFragment\<close> does not carry: in the heap built by appending an empty fragment,
  a text, another empty fragment and a text to a \<^verbatim>\<open>div\<close>, the first child of the
  \<^verbatim>\<open>div\<close> is the empty fragment itself (not what follows it), the next sibling of
  the first text is the second empty fragment, and the loop over the children
  visits both fragments.
\<close>

theorem fragment_not_skipped:
  "nodeType (fragment_heap 1) = FRAGMENT_NODE \<and> firstChildInternal (fragment_heap 1) = None
   \<and> firstChildInternal (fragment_heap 0) = Some 1
   \<and> firstChild fragment_heap 0 = Some (Some 1)
   \<and> nextSibling fragment_heap 1 = Some (Some 2)
   \<and> firstChild fragment_heap 0 \<noteq> nextSibling fragment_heap 1
   \<and> nodeType (fragment_heap 3) = FRAGMENT_NODE \<and> firstChildInternal (fragment_heap 3) = None
   \<and> nextSiblingInternal (fragment_heap 2) = Some 3
   \<and> nextSibling fragment_heap 2 = Some (Some 3)
   \<and> nextSibling fragment_heap 3 = Some (Some 4)
   \<and> nextSibling fragment_heap 2 \<noteq> nextSibling fragment_heap 3
   \<and> childNodes fragment_heap 0 = Some [1, 2, 3, 4]"
  by (simp add: fragment_heap_def heap_simps firstChild_eq nextSibling_eq enter_def
      childNodes_def siblings_from_Some)

lemma childNodes_nested:
  assumes "rep_node h p nxt (Sh r cs)" and "is_DocumentFragment (h r)"
    and "nextSibling h r = Some (hd_opt K)" and "siblings_from h (hd_opt K) = Some K"
  shows "childNodes h r = Some (if cs = [] then [] else flat_list h cs @ K)"
proof -
  have e: "is_DocumentFragment (h (ref (Sh r cs))) \<longrightarrow> exit_ok h (ref (Sh r cs)) K"
    using assms(2,3,4) by (simp add: exit_ok_def)
  have "node_ok h (Sh r cs)" by (rule node_ok_all)
  with assms(1,2) e have "firstChild h r = Some (if cs = [] then None else hd_opt (flat_list h cs @ K))"
    and "cs \<noteq> [] \<longrightarrow> siblings_from h (hd_opt (flat_list h cs @ K)) = Some (flat_list h cs @ K)"
    unfolding node_ok_def by (auto simp: Let_def)
  then show ?thesis
    by (cases "cs = []") (auto simp: childNodes_def)
qed

text \<open>
  Claim C6, amended: document fragments (\<^verbatim>\<open>VDocumentFragment\<close>), not fragments,
  are transparent.  On every heap: a getter never returns a document fragment; a
  link to a document fragment is replaced by the first child of the fragment or,
  when it has none, by what follows the fragment, and a link to any other node (a
  fragment included) is returned as it is; after the last child of a document
  fragment comes what follows the fragment.  On a heap whose parent, first-child
  and next-sibling links are those of a tree \<open>Sh r cs\<close>: the loop over the children
  of \<open>r\<close> terminates; when \<open>r\<close> is not a document fragment, or is one without parent
  and next sibling, it visits exactly the flattened children of \<open>r\<close>, in which no
  document fragment occurs; when \<open>r\<close> is a document fragment with children that is
  followed by the nodes \<open>K\<close>, it visits the flattened children of \<open>r\<close> and then runs
  on through \<open>K\<close>; when \<open>r\<close> is a document fragment without children it visits
  nothing.
\<close>

theorem documentFragment_transparent:
  "(rep_node h p nxt (Sh r cs) \<and> \<not> is_DocumentFragment (h r)
      \<longrightarrow> childNodes h r = Some (flat_list h cs))
   \<and> (rep_node h None None (Sh r cs) \<longrightarrow> childNodes h r = Some (flat_list h cs))
   \<and> (rep_node h p nxt (Sh r cs) \<and> is_DocumentFragment (h r)
        \<and> nextSibling h r = Some (hd_opt K) \<and> siblings_from h (hd_opt K) = Some K
      \<longrightarrow> childNodes h r = Some (if cs = [] then [] else flat_list h cs @ K))
   \<and> (\<forall>x \<in> set (flat_list h cs). \<not> is_DocumentFragment (h x))
   \<and> (firstChild h n = Some (Some x) \<longrightarrow> \<not> is_DocumentFragment (h x))
   \<and> (nextSibling h n = Some (Some x) \<longrightarrow> \<not> is_DocumentFragment (h x))
   \<and> firstChild h n =
       (case firstChildInternal (h n) of None \<Rightarrow> Some None | Some f \<Rightarrow> enter h f)
   \<and> nextSibling h n =
       (case nextSiblingInternal (h n) of
          Some s \<Rightarrow> enter h s
        | None \<Rightarrow>
            (case parentNode (h n) of
               Some p \<Rightarrow> if is_DocumentFragment (h p) then nextSibling h p else Some None
             | None \<Rightarrow> Some None))
   \<and> (is_DocumentFragment (h c) \<and> firstChildInternal (h c) = None
        \<longrightarrow> enter h c = nextSibling h c)
   \<and> (\<not> is_DocumentFragment (h c) \<longrightarrow> enter h c = Some (Some c))"
proof -
  have a: "rep_node h p nxt (Sh r cs) \<and> \<not> is_DocumentFragment (h r)
      \<longrightarrow> childNodes h r = Some (flat_list h cs)"
    using childNodes_flat[of h p nxt r cs] by blast
  have b: "rep_node h None None (Sh r cs) \<longrightarrow> childNodes h r = Some (flat_list h cs)"
    using childNodes_flat[of h None None r cs] by blast
  have b': "rep_node h p nxt (Sh r cs) \<and> is_DocumentFragment (h r)
        \<and> nextSibling h r = Some (hd_opt K) \<and> siblings_from h (hd_opt K) = Some K
      \<longrightarrow> childNodes h r = Some (if cs = [] then [] else flat_list h cs @ K)"
    using childNodes_nested[of h p nxt r cs K] by blast
  have c: "\<forall>x \<in> set (flat_list h cs). \<not> is_DocumentFragment (h x)"
    using flat_no_DocumentFragment(2) by blast
  have d: "firstChild h n = Some (Some x) \<longrightarrow> \<not> is_DocumentFragment (h x)"
    unfolding firstChild_def using walk_never_DocumentFragment by blast
  have e: "nextSibling h n = Some (Some x) \<longrightarrow> \<not> is_DocumentFragment (h x)"
    unfolding nextSibling_def using walk_never_DocumentFragment by blast
  have f: "is_DocumentFragment (h c) \<and> firstChildInternal (h c) = None
        \<longrightarrow> enter h c = nextSibling h c"
    by (simp add: enter_def firstChild_eq)
  have g: "\<not> is_DocumentFragment (h c) \<longrightarrow> enter h c = Some (Some c)"
    by (simp add: enter_def)
  from a b b' c d e f g firstChild_eq[of h n] nextSibling_eq[of h n] show ?thesis
    by blast
qed

theorem documentFragment_transparent_witness:
  "rep_node docfrag_heap None None (Sh 0 docfrag_children)
   \<and> \<not> is_DocumentFragment (docfrag_heap 0)
   \<and> is_DocumentFragment (docfrag_heap 1) \<and> firstChildInternal (docfrag_heap 1) = None
   \<and> firstChildInternal (docfrag_heap 0) = Some 1
   \<and> childNodes docfrag_heap 0 = Some [2, 5, 6]
   \<and> firstChild docfrag_heap 0 = Some (Some 2)
   \<and> nextSibling docfrag_heap 2 = Some (Some 5)
   \<and> nextSibling docfrag_heap 5 = Some (Some 6)
   \<and> enter docfrag_heap 1 = nextSibling docfrag_heap 1
   \<and> enter docfrag_heap 2 = Some (Some 2)
   \<and> rep_node docfrag_heap (Some 0) (Some 6) (Sh 3 [Sh 4 [], Sh 5 []])
   \<and> is_DocumentFragment (docfrag_heap 3)
   \<and> nextSibling docfrag_heap 3 = Some (Some 6)
   \<and> siblings_from docfrag_heap (Some 6) = Some [6]
   \<and> childNodes docfrag_heap 3 = Some [5, 6]
   \<and> childNodes docfrag_heap 1 = Some []"
proof -
  have r: "rep_node docfrag_heap None None (Sh 0 docfrag_children)"
    by (simp add: docfrag_heap_def docfrag_children_def heap_simps)
  have n: "\<not> is_DocumentFragment (docfrag_heap 0)"
    by (simp add: docfrag_heap_def heap_simps)
  have fl: "flat_list docfrag_heap docfrag_children = [2, 5, 6]"
    by (simp add: docfrag_heap_def docfrag_children_def heap_simps)
  have e1: "is_DocumentFragment (docfrag_heap 1) \<and> firstChildInternal (docfrag_heap 1) = None"
    by (simp add: docfrag_heap_def heap_simps)
  have e2: "\<not> is_DocumentFragment (docfrag_heap 2)"
    by (simp add: docfrag_heap_def heap_simps)
  have f0: "firstChildInternal (docfrag_heap 0) = Some 1"
    by (simp add: docfrag_heap_def heap_simps)
  have w: "firstChild docfrag_heap 0 = Some (Some 2)
     \<and> nextSibling docfrag_heap 2 = Some (Some 5)
     \<and> nextSibling docfrag_heap 5 = Some (Some 6)"
    by (simp add: docfrag_heap_def heap_simps firstChild_eq nextSibling_eq enter_def)
  have r3: "rep_node docfrag_heap (Some 0) (Some 6) (Sh 3 [Sh 4 [], Sh 5 []])"
    by (simp add: docfrag_heap_def heap_simps)
  have d3: "is_DocumentFragment (docfrag_heap 3)"
    by (simp add: docfrag_heap_def heap_simps)
  have n3: "nextSibling docfrag_heap 3 = Some (hd_opt [6])"
    by (simp add: docfrag_heap_def heap_simps nextSibling_eq enter_def)
  have n6: "nextSibling docfrag_heap 6 = Some None"
    by (simp add: docfrag_heap_def heap_simps nextSibling_eq enter_def)
  have s6: "siblings_from docfrag_heap (hd_opt [6]) = Some [6]"
    by (simp add: siblings_from_Some n6)
  have fl3: "flat_list docfrag_heap [Sh 4 [], Sh 5 []] = [5]"
    by (simp add: docfrag_heap_def heap_simps)
  have r1: "rep_node docfrag_heap (Some 0) (Some 2) (Sh 1 [])"
    by (simp add: docfrag_heap_def heap_simps)
  have n1: "nextSibling docfrag_heap 1 = Some (hd_opt [2, 5, 6])"
    using w by (simp add: docfrag_heap_def heap_simps nextSibling_eq enter_def)
  have s1: "siblings_from docfrag_heap (hd_opt [2, 5, 6]) = Some [2, 5, 6]"
    using w by (simp add: siblings_from_Some n6)
  have "rep_node docfrag_heap (Some 0) (Some 6) (Sh 3 [Sh 4 [], Sh 5 []])
        \<and> is_DocumentFragment (docfrag_heap 3)
        \<and> nextSibling docfrag_heap 3 = Some (hd_opt [6])
        \<and> siblings_from docfrag_heap (hd_opt [6]) = Some [6]
      \<longrightarrow> childNodes docfrag_heap 3 =
          Some (if [Sh 4 [], Sh 5 []] = [] then [] else flat_list docfrag_heap [Sh 4 [], Sh 5 []] @ [6])"
    by (rule documentFragment_transparent[where h = docfrag_heap and p = "Some 0"
          and nxt = "Some 6" and r = 3 and cs = "[Sh 4 [], Sh 5 []]" and K = "[6]",
          THEN conjunct2, THEN conjunct2, THEN conjunct1])
  with r3 d3 n3 s6 fl3 have c3: "childNodes docfrag_heap 3 = Some [5, 6]"
    by simp
  have "rep_node docfrag_heap (Some 0) (Some 2) (Sh 1 [])
        \<and> is_DocumentFragment (docfrag_heap 1)
        \<and> nextSibling docfrag_heap 1 = Some (hd_opt [2, 5, 6])
        \<and> siblings_from docfrag_heap (hd_opt [2, 5, 6]) = Some [2, 5, 6]
      \<longrightarrow> childNodes docfrag_heap 1 =
          Some (if ([]::shape list) = [] then [] else flat_list docfrag_heap [] @ [2, 5, 6])"
    by (rule documentFragment_transparent[where h = docfrag_heap and p = "Some 0"
          and nxt = "Some 2" and r = 1 and cs = "[]" and K = "[2, 5, 6]",
          THEN conjunct2, THEN conjunct2, THEN conjunct1])
  with r1 e1 n1 s1 have c1: "childNodes docfrag_heap 1 = Some []"
    by simp
  from documentFragment_transparent[where h = docfrag_heap and p = None and nxt = None
        and r = 0 and cs = docfrag_children and n = 0 and x = 2 and c = 1]
    documentFragment_transparent[where h = docfrag_heap and p = None and nxt = None
        and r = 0 and cs = docfrag_children and n = 0 and x = 2 and c = 2]
    r n fl e1 e2 f0 w
  have main: "childNodes docfrag_heap 0 = Some [2, 5, 6]
     \<and> enter docfrag_heap 1 = nextSibling docfrag_heap 1
     \<and> enter docfrag_heap 2 = Some (Some 2)"
    by simp
  from main r n e1 f0 w r3 d3 n3 s6 c3 c1 show ?thesis by simp
qed


section \<open>AsyncVDOMBuilder\<close>

text \<open>
  The argument of \<^verbatim>\<open>error(e)\<close> is an \<^verbatim>\<open>Error\<close> instance or any other value
  (given by its string rendering).  An event carries its argument; the log of a
  world records every call of \<^verbatim>\<open>emit\<close> on the shared emitter and every run of
  the \<^verbatim>\<open>last\<close> callbacks.
\<close>

datatype jsval = Err js_error | Other string

datatype payload = NoArg | Val jsval | Result "nat list" | AsyncInfo "nat list" "nat list"

datatype event = Emit string payload | LastCallbacks "nat list"

text \<open>
  A builder (\<^verbatim>\<open>AsyncVDOMBuilder\<close>).  A builder is identified by the path of
  \<^verbatim>\<open>beginAsync\<close> calls that created it: the root is \<open>[]\<close> and the \<open>k\<close>-th builder
  spawned by \<open>b\<close> is \<open>k # b\<close>, so \<^verbatim>\<open>___parentOut\<close> of \<open>k # b\<close> is \<open>b\<close> and the root
  has none.  \<open>lastArray\<close> is \<^verbatim>\<open>this._last\<close> (the number of callbacks registered by
  \<^verbatim>\<open>onLast\<close>, undefined before the first), \<open>parent\<close> is \<^verbatim>\<open>___parent\<close> (the virtual
  node that receives children, undefined after \<^verbatim>\<open>end()\<close>), \<open>spawned\<close> counts the
  builders created by \<^verbatim>\<open>beginAsync\<close> on this one.  The element stack is not
  modelled.  All builders of a world share one \<^verbatim>\<open>State\<close>: the flag
  \<^verbatim>\<open>___finished\<close>, the emitter (listener counts per event type) and its log.
\<close>

record out =
  remaining :: int
  lastCount :: int
  lastArray :: "nat option"
  sync :: bool
  parent :: "nat option"
  spawned :: nat

record world =
  outs :: "nat list \<Rightarrow> out option"
  finished :: bool
  listeners :: "string \<Rightarrow> nat"
  emitted :: "event list"
  vh :: vheap
  fresh :: nat

text \<open>
  \<^verbatim>\<open>new AsyncVDOMBuilder(globalData, parentNode, parentOut)\<close> sets
  \<^verbatim>\<open>___remaining = 1\<close>, \<^verbatim>\<open>___lastCount = 0\<close>, \<^verbatim>\<open>___sync = false\<close> and
  \<^verbatim>\<open>___parent = parentNode\<close>; \<^verbatim>\<open>createOut(globalData)\<close> makes a root builder on a
  new \<^verbatim>\<open>VDocumentFragment\<close> with a new \<^verbatim>\<open>State\<close>.
\<close>

definition AsyncVDOMBuilder :: "nat \<Rightarrow> out" where
  "AsyncVDOMBuilder node =
     \<lparr> remaining = 1, lastCount = 0, lastArray = None, sync = False,
       parent = Some node, spawned = 0 \<rparr>"

definition createOut :: world where
  "createOut =
     \<lparr> outs = [[] \<mapsto> AsyncVDOMBuilder 0], finished = False, listeners = (\<lambda>_. 0),
       emitted = [], vh = empty_heap(0 := VDocumentFragment), fresh = 1 \<rparr>"

text \<open>
  \<^verbatim>\<open>EventEmitter.prototype.emit\<close>: with no listener for the type, an \<^verbatim>\<open>error\<close>
  event throws its argument when it is an \<^verbatim>\<open>Error\<close> instance and otherwise a new
  \<^verbatim>\<open>Error('Error: ' + context)\<close>; any other event returns \<^verbatim>\<open>false\<close>.  With
  listeners, they are invoked and the result is \<^verbatim>\<open>true\<close>.
\<close>

definition thrown :: "payload \<Rightarrow> js_error" where
  "thrown arg =
     (case arg of
        Val (Err x) \<Rightarrow> x
      | Val (Other c) \<Rightarrow> Error (''Error: '' @ c)
      | NoArg \<Rightarrow> Error ''Error: undefined''
      | _ \<Rightarrow> Error ''Error: [object Object]'')"

definition events_emit :: "world \<Rightarrow> string \<Rightarrow> payload \<Rightarrow> bool completion \<times> world" where
  "events_emit w type arg =
     (let w1 = w\<lparr> emitted := emitted w @ [Emit type arg] \<rparr> in
      if listeners w type = 0 then
        (if type = ''error'' then (Throw (thrown arg), w1) else (Normal False, w1))
      else (Normal True, w1))"

text \<open>
  \<^verbatim>\<open>
  end: function() {
      this.___parent = undefined;
      var remaining = --this.___remaining;
      var parentOut = this.___parentOut;
      if (remaining === 0) {
          if (parentOut) { parentOut.___handleChildDone(); } else { this.___doFinish(); }
      } else if (remaining - this.___lastCount === 0) {
          this.___emitLast();
      }
      return this;
  }
  ___handleChildDone: function() {
      var remaining = --this.___remaining;
      if (remaining === 0) {
          var parentOut = this.___parentOut;
          if (parentOut) { parentOut.___handleChildDone(); } else { this.___doFinish(); }
      } else if (remaining - this.___lastCount === 0) {
          this.___emitLast();
      }
  }
  ___doFinish: function() {
      var state = this.___state;
      state.___finished = true;
      state.___events.emit(EVENT_FINISH, this.___getResult());
  }
  \<close>
  \<^verbatim>\<open>___emitLast\<close> reads \<^verbatim>\<open>this._last.length\<close>, a \<^verbatim>\<open>TypeError\<close> when no callback was
  registered, and runs the callbacks otherwise.
\<close>

definition doFinish :: "world \<Rightarrow> nat list \<Rightarrow> unit completion \<times> world" where
  "doFinish w b =
     (let (r, w1) = events_emit (w\<lparr> finished := True \<rparr>) ''finish'' (Result b)
      in (case r of Throw x \<Rightarrow> Throw x | Normal _ \<Rightarrow> Normal (), w1))"

definition emitLast :: "world \<Rightarrow> nat list \<Rightarrow> out \<Rightarrow> unit completion \<times> world" where
  "emitLast w b this =
     (case lastArray this of
        None \<Rightarrow> (Throw TypeError, w)
      | Some n \<Rightarrow> (Normal (), w\<lparr> emitted := emitted w @ [LastCallbacks b] \<rparr>))"

fun handleChildDone :: "world \<Rightarrow> nat list \<Rightarrow> unit completion \<times> world" where
  "handleChildDone w b =
     (case outs w b of
        None \<Rightarrow> (Throw TypeError, w)
      | Some this \<Rightarrow>
          (let remaining' = remaining this - 1;
               this1 = this\<lparr> remaining := remaining' \<rparr>;
               w1 = w\<lparr> outs := (outs w)(b \<mapsto> this1) \<rparr>
           in if remaining' = 0 then
                (case b of
                   k # parentOut \<Rightarrow> handleChildDone w1 parentOut
                 | [] \<Rightarrow> doFinish w1 b)
              else if remaining' - lastCount this1 = 0 then emitLast w1 b this1
              else (Normal (), w1)))"

declare handleChildDone.simps [simp del]

definition out_end :: "world \<Rightarrow> nat list \<Rightarrow> unit completion \<times> world" where
  "out_end w b =
     (case outs w b of
        None \<Rightarrow> (Throw TypeError, w)
      | Some this \<Rightarrow>
          (let remaining' = remaining this - 1;
               this1 = this\<lparr> parent := None, remaining := remaining' \<rparr>;
               w1 = w\<lparr> outs := (outs w)(b \<mapsto> this1) \<rparr>
           in if remaining' = 0 then
                (case b of
                   k # parentOut \<Rightarrow> handleChildDone w1 parentOut
                 | [] \<Rightarrow> doFinish w1 b)
              else if remaining' - lastCount this1 = 0 then emitLast w1 b this1
              else (Normal (), w1)))"

text \<open>
  \<^verbatim>\<open>
  beginAsync: function(options) {
      if (this.___sync) { throw Error("Tried to render async while in sync mode. ..."); }
      var state = this.___state;
      if (options) { if (options.last) { this.___lastCount++; } }
      this.___remaining++;
      var documentFragment = this.___parent.___appendDocumentFragment();
      var asyncOut = new AsyncVDOMBuilder(this.global, documentFragment, this);
      state.___events.emit("beginAsync", { out: asyncOut, parentOut: this });
      return asyncOut;
  }
  \<close>
  The counters are incremented before the placeholder is appended, so an exception
  of \<^verbatim>\<open>___appendDocumentFragment\<close> (no \<^verbatim>\<open>___parent\<close> after \<^verbatim>\<open>end()\<close>, or a
  \<^verbatim>\<open>textarea\<close> parent) leaves them incremented.
\<close>

definition sync_error :: js_error where
  "sync_error = Error ''Tried to render async while in sync mode. Note: Client side await is not currently supported in re-renders (Issue: #942).''"

definition beginAsync :: "world \<Rightarrow> nat list \<Rightarrow> bool \<Rightarrow> nat list completion \<times> world" where
  "beginAsync w b options_last =
     (case outs w b of
        None \<Rightarrow> (Throw TypeError, w)
      | Some this \<Rightarrow>
          if sync this then (Throw sync_error, w)
          else
            (let this1 = this\<lparr> lastCount := (if options_last then lastCount this + 1 else lastCount this),
                               remaining := remaining this + 1 \<rparr>;
                 w1 = w\<lparr> outs := (outs w)(b \<mapsto> this1) \<rparr>
             in case parent this1 of
                  None \<Rightarrow> (Throw TypeError, w1)
                | Some p \<Rightarrow>
                    (let d = fresh w1;
                         (r, h1) = appendChild ((vh w1)(d := VDocumentFragment)) p d;
                         w2 = w1\<lparr> vh := h1, fresh := Suc d \<rparr>
                     in case r of
                          Throw x \<Rightarrow> (Throw x, w2)
                        | Normal documentFragment \<Rightarrow>
                            (let asyncOut = spawned this1 # b;
                                 w3 = w2\<lparr> outs := (outs w2)
                                        (b \<mapsto> this1\<lparr> spawned := Suc (spawned this1) \<rparr>,
                                         asyncOut \<mapsto> AsyncVDOMBuilder documentFragment) \<rparr>
                             in (Normal asyncOut,
                                 snd (events_emit w3 ''beginAsync'' (AsyncInfo asyncOut b)))))))"

text \<open>
  \<^verbatim>\<open>
  error: function(e) {
      try { this.emit("error", e); } finally { this.end(); }
      return this;
  }
  \<close>
  The \<^verbatim>\<open>finally\<close> block runs \<^verbatim>\<open>end()\<close> whatever \<^verbatim>\<open>emit\<close> did; an exception of
  \<^verbatim>\<open>end()\<close> replaces the one of \<^verbatim>\<open>emit\<close>.  \<^verbatim>\<open>sync()\<close> sets \<^verbatim>\<open>___sync\<close>;
  \<^verbatim>\<open>on(event, callback)\<close> calls the callback at once for \<^verbatim>\<open>finish\<close> on a finished
  state, registers a \<^verbatim>\<open>last\<close> callback, or adds a listener.
\<close>

definition out_error :: "world \<Rightarrow> nat list \<Rightarrow> jsval \<Rightarrow> unit completion \<times> world" where
  "out_error w b e =
     (let (r1, w1) = events_emit w ''error'' (Val e);
          (r2, w2) = out_end w1 b
      in (case r2 of
            Throw x \<Rightarrow> Throw x
          | Normal _ \<Rightarrow> (case r1 of Throw x \<Rightarrow> Throw x | Normal _ \<Rightarrow> Normal ()),
          w2))"

definition out_sync :: "world \<Rightarrow> nat list \<Rightarrow> world" where
  "out_sync w b =
     (case outs w b of
        None \<Rightarrow> w
      | Some this \<Rightarrow> w\<lparr> outs := (outs w)(b \<mapsto> this\<lparr> sync := True \<rparr>) \<rparr>)"

definition out_on :: "world \<Rightarrow> nat list \<Rightarrow> string \<Rightarrow> world" where
  "out_on w b event =
     (if event = ''finish'' \<and> finished w then w
      else if event = ''last'' then
        (case outs w b of
           None \<Rightarrow> w
         | Some this \<Rightarrow>
             w\<lparr> outs := (outs w)(b \<mapsto>
                  this\<lparr> lastArray := Some (case lastArray this of None \<Rightarrow> 1 | Some n \<Rightarrow> Suc n) \<rparr>) \<rparr>)
      else w\<lparr> listeners := (listeners w)(event := Suc (listeners w event)) \<rparr>)"

text \<open>
  A run of calls on the builders of a world.  A caller that catches an exception
  goes on with the state the call left, so a run keeps the state of every step.
  A run conforms to the protocol when \<^verbatim>\<open>beginAsync\<close>, \<^verbatim>\<open>end\<close> and \<^verbatim>\<open>error\<close> are
  called only on a builder that exists and whose \<^verbatim>\<open>end()\<close> has not been called (its
  \<^verbatim>\<open>___parent\<close> is still defined).  \<^verbatim>\<open>on\<close> and \<^verbatim>\<open>sync\<close> may be called on any
  builder at any time: \<^verbatim>\<open>render(data).then(...)\<close> registers its listeners on the
  root after the renderer has ended it.
\<close>

datatype op = BeginAsync "nat list" bool | End "nat list" | ErrorOp "nat list" jsval
  | Sync "nat list" | On "nat list" string

fun target :: "op \<Rightarrow> nat list" where
  "target (BeginAsync b l) = b"
| "target (End b) = b"
| "target (ErrorOp b e) = b"
| "target (Sync b) = b"
| "target (On b ev) = b"

fun step :: "world \<Rightarrow> op \<Rightarrow> world" where
  "step w (BeginAsync b l) = snd (beginAsync w b l)"
| "step w (End b) = snd (out_end w b)"
| "step w (ErrorOp b e) = snd (out_error w b e)"
| "step w (Sync b) = out_sync w b"
| "step w (On b ev) = out_on w b ev"

fun run :: "world \<Rightarrow> op list \<Rightarrow> world" where
  "run w [] = w"
| "run w (x # xs) = run (step w x) xs"

definition finishes :: "world \<Rightarrow> nat" where
  "finishes w = length (filter (\<lambda>ev. case ev of Emit t a \<Rightarrow> t = ''finish'' | _ \<Rightarrow> False) (emitted w))"

definition live :: "world \<Rightarrow> nat list \<Rightarrow> bool" where
  "live w b = (case outs w b of None \<Rightarrow> False | Some this \<Rightarrow> parent this \<noteq> None)"

fun permitted :: "world \<Rightarrow> op \<Rightarrow> bool" where
  "permitted w (BeginAsync b l) = live w b"
| "permitted w (End b) = live w b"
| "permitted w (ErrorOp b e) = live w b"
| "permitted w (Sync b) = True"
| "permitted w (On b ev) = True"

fun conforming :: "world \<Rightarrow> op list \<Rightarrow> bool" where
  "conforming w [] = True"
| "conforming w (x # xs) = (permitted w x \<and> conforming (step w x) xs)"


text \<open>
  The invariant of conforming runs.  A builder is open while its count is not
  zero.  The count of every builder is one for itself (until its \<^verbatim>\<open>end()\<close>) plus the
  number of its open children, plus the decrement \<open>d\<close> still owed to it in the
  middle of a cascade; a builder exists only if its parent spawned it; the state is
  finished exactly when the root is not open, and then \<^verbatim>\<open>finish\<close> was emitted once.
\<close>

definition is_open :: "(nat list \<Rightarrow> out option) \<Rightarrow> nat list \<Rightarrow> bool" where
  "is_open os c = (case os c of None \<Rightarrow> False | Some this \<Rightarrow> remaining this \<noteq> 0)"

definition open_kids :: "(nat list \<Rightarrow> out option) \<Rightarrow> nat list \<Rightarrow> nat \<Rightarrow> nat" where
  "open_kids os b n = card {k. k < n \<and> is_open os (k # b)}"

definition balanced :: "(nat list \<Rightarrow> out option) \<Rightarrow> nat list \<Rightarrow> int \<Rightarrow> bool" where
  "balanced os b d =
     (case os b of
        None \<Rightarrow> True
      | Some this \<Rightarrow>
          remaining this =
            (if parent this = None then 0 else 1) + int (open_kids os b (spawned this)) + d)"

definition inv_with :: "world \<Rightarrow> (nat list \<Rightarrow> int) \<Rightarrow> bool" where
  "inv_with w d =
     ((\<forall>b. balanced (outs w) b (d b))
      \<and> (\<forall>b k. outs w (k # b) \<noteq> None \<longrightarrow> (\<exists>this. outs w b = Some this \<and> k < spawned this))
      \<and> outs w [] \<noteq> None
      \<and> (finished w \<longleftrightarrow> \<not> is_open (outs w) [])
      \<and> finishes w = (if finished w then 1 else 0)
      \<and> (\<forall>r. nodeName (vh w r) = None))"

definition inv :: "world \<Rightarrow> bool" where
  "inv w = inv_with w (\<lambda>_. 0)"


text \<open>
  \<^verbatim>\<open>Component.prototype.___rerender\<close> begins with
  \<^verbatim>\<open>var out = createOut(globalData); out.sync();\<close> and then calls
  \<^verbatim>\<open>renderer(input, out)\<close>.  The renderer is the list of builder calls it makes;
  \<open>rerender\<close> is the world when it returns (the reconciliation that follows is the
  subject of the section on \<^verbatim>\<open>morphdom\<close>).
\<close>

definition rerender :: "op list \<Rightarrow> world" where
  "rerender renderer = run (out_sync createOut []) renderer"

definition root_sync_only :: "world \<Rightarrow> bool" where
  "root_sync_only w =
     ((\<exists>this. outs w [] = Some this \<and> sync this) \<and> (\<forall>b. b \<noteq> [] \<longrightarrow> outs w b = None))"


text \<open>
  Three async branches, one of them nested and one registered as last; listeners
  are registered on the root and on a child after their \<^verbatim>\<open>end()\<close>.
\<close>

definition async_trace :: "op list" where
  "async_trace = [BeginAsync [] False, BeginAsync [] True, On [] ''last'', BeginAsync [1] False,
                  End [], On [] ''finish'', Sync [], End [1], On [1] ''error'', End [0],
                  End [0, 1]]"


definition one_child :: world where
  "one_child = run createOut [BeginAsync [] False]"

subsection \<open>Properties of the builder\<close>

lemmas builder_simps = beginAsync_def out_end_def out_error_def events_emit_def doFinish_def
  emitLast_def handleChildDone.simps createOut_def AsyncVDOMBuilder_def out_sync_def out_on_def
  heap_simps finishes_def live_def

lemma inv_withI:
  assumes "\<And>b. balanced (outs w) b (d b)"
    and "\<And>b k. outs w (k # b) \<noteq> None \<Longrightarrow> \<exists>this. outs w b = Some this \<and> k < spawned this"
    and "outs w [] \<noteq> None"
    and "finished w \<longleftrightarrow> \<not> is_open (outs w) []"
    and "finishes w = (if finished w then 1 else 0)"
    and "\<And>r. nodeName (vh w r) = None"
  shows "inv_with w d"
  unfolding inv_with_def using assms by blast

lemma open_kids_cong:
  "(\<And>k. k < n \<Longrightarrow> is_open os' (k # b) = is_open os (k # b)) \<Longrightarrow> open_kids os' b n = open_kids os b n"
  unfolding open_kids_def by (rule arg_cong[where f = card]) auto

lemma open_kids_close:
  assumes "j < n" "is_open os (j # b)" "\<not> is_open os' (j # b)"
    and "\<And>k. k < n \<Longrightarrow> k \<noteq> j \<Longrightarrow> is_open os' (k # b) = is_open os (k # b)"
  shows "int (open_kids os b n) = int (open_kids os' b n) + 1"
proof -
  have "{k. k < n \<and> is_open os (k # b)} = insert j {k. k < n \<and> is_open os' (k # b)}"
    using assms by auto
  moreover have "j \<notin> {k. k < n \<and> is_open os' (k # b)}" using assms by simp
  moreover have "finite {k. k < n \<and> is_open os' (k # b)}" by simp
  ultimately show ?thesis unfolding open_kids_def by simp
qed

lemma open_kids_spawn:
  assumes "is_open os' (n # b)"
    and "\<And>k. k < n \<Longrightarrow> is_open os' (k # b) = is_open os (k # b)"
  shows "open_kids os' b (Suc n) = open_kids os b n + 1"
proof -
  have "{k. k < Suc n \<and> is_open os' (k # b)} = insert n {k. k < n \<and> is_open os (k # b)}"
    using assms by (auto simp: less_Suc_eq)
  moreover have "n \<notin> {k. k < n \<and> is_open os (k # b)}" by simp
  moreover have "finite {k. k < n \<and> is_open os (k # b)}" by simp
  ultimately show ?thesis unfolding open_kids_def by simp
qed

lemma finishes_emit:
  "finishes (w\<lparr> emitted := emitted w @ [ev] \<rparr>) =
     finishes w + (case ev of Emit t a \<Rightarrow> if t = ''finish'' then 1 else 0 | _ \<Rightarrow> 0)"
  by (simp add: finishes_def split: event.splits)


lemma balanced_cong:
  "os' b = os b \<Longrightarrow> (\<And>n. open_kids os' b n = open_kids os b n) \<Longrightarrow>
   balanced os' b d = balanced os b d"
  by (simp add: balanced_def split: option.splits)

lemma is_open_upd:
  "is_open (os(p \<mapsto> t)) c = (if c = p then remaining t \<noteq> 0 else is_open os c)"
  by (simp add: is_open_def)

lemma settle:
  assumes iw: "inv_with w d" and d0: "\<And>b. b \<noteq> p \<Longrightarrow> d b = 0"
    and t: "outs w p = Some this"
    and sp: "spawned this1 = spawned this"
    and op: "remaining this \<noteq> 0"
    and bal1: "remaining this1 =
        (if parent this1 = None then 0 else 1) + int (open_kids (outs w) p (spawned this))"
  shows "remaining this1 \<noteq> 0 \<Longrightarrow> inv_with (w\<lparr> outs := (outs w)(p \<mapsto> this1) \<rparr>) (\<lambda>_. 0)"
    and "remaining this1 = 0 \<Longrightarrow> p = k # q \<Longrightarrow>
         inv_with (w\<lparr> outs := (outs w)(p \<mapsto> this1) \<rparr>) (\<lambda>b. if b = q then 1 else 0)
         \<and> outs w q \<noteq> None"
    and "remaining this1 = 0 \<Longrightarrow> p = [] \<Longrightarrow>
         inv_with (w\<lparr> outs := (outs w)(p \<mapsto> this1), finished := True,
                      emitted := emitted w @ [Emit ''finish'' a] \<rparr>) (\<lambda>_. 0)"
proof -
  let ?os = "outs w" and ?os1 = "(outs w)(p \<mapsto> this1)"
  from iw have balw: "\<And>b. balanced ?os b (d b)"
    and ex: "\<And>b k. ?os (k # b) \<noteq> None \<Longrightarrow> \<exists>this. ?os b = Some this \<and> k < spawned this"
    and root: "?os [] \<noteq> None"
    and fin: "finished w \<longleftrightarrow> \<not> is_open ?os []"
    and fcount: "finishes w = (if finished w then 1 else 0)"
    and heap: "\<And>r. nodeName (vh w r) = None"
    unfolding inv_with_def by blast+
  have opn: "is_open ?os p" using t op by (simp add: is_open_def)
  have kids_p: "\<And>n. open_kids ?os1 p n = open_kids ?os p n"
    by (rule open_kids_cong) (simp add: is_open_upd)
  have ex1: "\<And>b k. ?os1 (k # b) \<noteq> None \<Longrightarrow> \<exists>this. ?os1 b = Some this \<and> k < spawned this"
  proof -
    fix b k assume a: "?os1 (k # b) \<noteq> None"
    then have "?os (k # b) \<noteq> None" using t by (auto split: if_splits)
    from ex[OF this] obtain that where "?os b = Some that" "k < spawned that" by blast
    then show "\<exists>this. ?os1 b = Some this \<and> k < spawned this"
      using t sp by (cases "b = p") auto
  qed
  have balp: "balanced ?os1 p 0"
    using bal1 kids_p sp by (simp add: balanced_def)
  {
    assume r: "remaining this1 \<noteq> 0"
    have same: "\<And>c. is_open ?os1 c = is_open ?os c"
      using opn r by (simp add: is_open_upd)
    have nb: "\<And>b. b \<noteq> p \<Longrightarrow> balanced ?os1 b 0"
    proof -
      fix b assume "b \<noteq> p"
      moreover have "\<And>n. open_kids ?os1 b n = open_kids ?os b n"
        by (rule open_kids_cong) (rule same)
      ultimately show "balanced ?os1 b 0"
        using balw[of b] d0[of b] balanced_cong[of ?os1 b ?os 0] by simp
    qed
    have ball: "\<And>b. balanced ?os1 b 0"
    proof -
      fix b show "balanced ?os1 b 0" using balp nb[of b] by (cases "b = p") simp_all
    qed
    show "inv_with (w\<lparr> outs := ?os1 \<rparr>) (\<lambda>_. 0)"
    proof (rule inv_withI)
      show "\<And>b. balanced (outs (w\<lparr>outs := ?os1\<rparr>)) b 0" using ball by simp
      show "\<And>b k. outs (w\<lparr>outs := ?os1\<rparr>) (k # b) \<noteq> None \<Longrightarrow>
            \<exists>this. outs (w\<lparr>outs := ?os1\<rparr>) b = Some this \<and> k < spawned this"
        using ex1 by simp
    qed (use root fin fcount heap same in \<open>simp_all add: finishes_def\<close>)
  }
  {
    assume r: "remaining this1 = 0" and pk: "p = k # q"
    from ex[of k q] t pk obtain that where q: "?os q = Some that" and kn: "k < spawned that"
      by auto
    have qp: "q \<noteq> p" using pk by simp
    have same: "\<And>c. c \<noteq> p \<Longrightarrow> is_open ?os1 c = is_open ?os c"
      by (simp add: is_open_upd)
    have cl: "\<not> is_open ?os1 p" using r by (simp add: is_open_upd)
    have balq: "balanced ?os1 q 1"
    proof -
      have "int (open_kids ?os q (spawned that)) = int (open_kids ?os1 q (spawned that)) + 1"
        by (rule open_kids_close[where j = k]) (use kn opn cl pk same in auto)
      then show ?thesis
        using balw[of q] d0[of q] qp q by (simp add: balanced_def)
    qed
    have nb: "\<And>b. b \<noteq> p \<Longrightarrow> b \<noteq> q \<Longrightarrow> balanced ?os1 b 0"
    proof -
      fix b assume b: "b \<noteq> p" "b \<noteq> q"
      have "\<And>n. open_kids ?os1 b n = open_kids ?os b n"
        by (rule open_kids_cong) (use b pk same in auto)
      then show "balanced ?os1 b 0"
        using balw[of b] d0[of b] b balanced_cong[of ?os1 b ?os 0] by simp
    qed
    have balall: "\<And>b. balanced ?os1 b (if b = q then 1 else 0)"
    proof -
      fix b
      show "balanced ?os1 b (if b = q then 1 else 0)"
        using balp balq qp nb[of b] by (cases "b = q"; cases "b = p") simp_all
    qed
    have root_same: "is_open ?os1 [] = is_open ?os []" using pk by (simp add: is_open_upd)
    have "inv_with (w\<lparr> outs := ?os1 \<rparr>) (\<lambda>b. if b = q then 1 else 0)"
    proof (rule inv_withI)
      show "\<And>b k. outs (w\<lparr>outs := ?os1\<rparr>) (k # b) \<noteq> None \<Longrightarrow>
            \<exists>this. outs (w\<lparr>outs := ?os1\<rparr>) b = Some this \<and> k < spawned this"
        using ex1 by simp
      show "\<And>b. balanced (outs (w\<lparr>outs := ?os1\<rparr>)) b (if b = q then 1 else 0)"
        using balall by simp
    qed (use root fin fcount heap root_same in \<open>simp_all add: finishes_def\<close>)
    with q show "inv_with (w\<lparr> outs := ?os1 \<rparr>) (\<lambda>b. if b = q then 1 else 0) \<and> outs w q \<noteq> None"
      by simp
  }
  {
    assume r: "remaining this1 = 0" and pn: "p = []"
    have same: "\<And>c. c \<noteq> [] \<Longrightarrow> is_open ?os1 c = is_open ?os c"
      using pn by (simp add: is_open_upd)
    have nb: "\<And>b. b \<noteq> p \<Longrightarrow> balanced ?os1 b 0"
    proof -
      fix b assume b: "b \<noteq> p"
      have "\<And>n. open_kids ?os1 b n = open_kids ?os b n"
        by (rule open_kids_cong) (use same in auto)
      then show "balanced ?os1 b 0"
        using balw[of b] d0[of b] b balanced_cong[of ?os1 b ?os 0] by simp
    qed
    have bal: "\<And>b. balanced ?os1 b 0"
    proof -
      fix b show "balanced ?os1 b 0" using balp nb[of b] by (cases "b = p") simp_all
    qed
    have nf: "\<not> finished w" using fin opn pn by simp
    have cl: "\<not> is_open ?os1 []" using r pn by (simp add: is_open_upd)
    show "inv_with (w\<lparr> outs := ?os1, finished := True,
                      emitted := emitted w @ [Emit ''finish'' a] \<rparr>) (\<lambda>_. 0)"
    proof (rule inv_withI)
      show "\<And>b k. outs (w\<lparr> outs := ?os1, finished := True,
                      emitted := emitted w @ [Emit ''finish'' a] \<rparr>) (k # b) \<noteq> None \<Longrightarrow>
            \<exists>this. outs (w\<lparr> outs := ?os1, finished := True,
                      emitted := emitted w @ [Emit ''finish'' a] \<rparr>) b = Some this \<and> k < spawned this"
        using ex1 by simp
    qed (use bal root nf fcount heap cl in \<open>simp_all add: finishes_def\<close>)
  }
qed


lemma inv_with_log:
  assumes "inv_with w d" and "case ev of Emit t a \<Rightarrow> t \<noteq> ''finish'' | _ \<Rightarrow> True"
  shows "inv_with (w\<lparr> emitted := emitted w @ [ev] \<rparr>) d"
  using assms unfolding inv_with_def
  by (simp add: finishes_def split: event.splits)

lemma emitLast_inv:
  "inv_with w d \<Longrightarrow> inv_with (snd (emitLast w b this)) d"
  by (auto simp: emitLast_def intro: inv_with_log split: option.splits)

lemma doFinish_world:
  "snd (doFinish w b) = w\<lparr> finished := True, emitted := emitted w @ [Emit ''finish'' (Result b)] \<rparr>"
  by (simp add: doFinish_def events_emit_def Let_def split_beta)

lemma handleChildDone_inv:
  "inv_with w (\<lambda>b. if b = p then 1 else 0) \<Longrightarrow> outs w p \<noteq> None \<Longrightarrow>
   inv (snd (handleChildDone w p))"
proof (induction p arbitrary: w)
  case Nil
  then obtain this where t: "outs w [] = Some this" by auto
  let ?this1 = "this\<lparr> remaining := remaining this - 1 \<rparr>"
  from Nil.prems(1) have "balanced (outs w) [] 1"
    unfolding inv_with_def by (metis (full_types))
  with t have bal: "remaining this =
      (if parent this = None then 0 else 1) + int (open_kids (outs w) [] (spawned this)) + 1"
    by (simp add: balanced_def)
  then have op: "remaining this \<noteq> 0" by (auto split: if_splits)
  from bal have bal1: "remaining ?this1 =
      (if parent ?this1 = None then 0 else 1) + int (open_kids (outs w) [] (spawned this))"
    by simp
  note st = settle[OF Nil.prems(1) _ t _ op bal1, simplified]
  show ?case
  proof (cases "remaining this - 1 = 0")
    case True
    with st(3)[of "Result []"] t show ?thesis
      by (subst handleChildDone.simps) (simp add: inv_def doFinish_world Let_def)
  next
    case False
    let ?w1 = "w\<lparr>outs := (outs w)([] \<mapsto> ?this1)\<rparr>"
    from False st(1) have i1: "inv_with ?w1 (\<lambda>_. 0)" by simp
    have "snd (handleChildDone w []) = ?w1 \<or> snd (handleChildDone w []) = snd (emitLast ?w1 ([]) ?this1)"
      using False t by (subst handleChildDone.simps, subst handleChildDone.simps) (simp add: Let_def)
    with i1 emitLast_inv[OF i1] show ?thesis
      unfolding inv_def by metis
  qed
next
  case (Cons k q)
  then obtain this where t: "outs w (k # q) = Some this" by auto
  let ?this1 = "this\<lparr> remaining := remaining this - 1 \<rparr>"
  from Cons.prems(1) have "balanced (outs w) (k # q) 1"
    unfolding inv_with_def by (metis (full_types))
  with t have bal: "remaining this =
      (if parent this = None then 0 else 1) + int (open_kids (outs w) (k # q) (spawned this)) + 1"
    by (simp add: balanced_def)
  then have op: "remaining this \<noteq> 0" by (auto split: if_splits)
  from bal have bal1: "remaining ?this1 =
      (if parent ?this1 = None then 0 else 1) + int (open_kids (outs w) (k # q) (spawned this))"
    by simp
  note st = settle[OF Cons.prems(1) _ t _ op bal1, simplified]
  show ?case
  proof (cases "remaining this - 1 = 0")
    case True
    with st(2)[of k q] have
      i: "inv_with (w\<lparr>outs := (outs w)(k # q \<mapsto> ?this1)\<rparr>) (\<lambda>b. if b = q then 1 else 0)"
      and e: "outs w q \<noteq> None" by simp_all
    from e have e': "outs (w\<lparr>outs := (outs w)(k # q \<mapsto> ?this1)\<rparr>) q \<noteq> None" by simp
    from Cons.IH[OF i e'] True t show ?thesis
      by (subst handleChildDone.simps) (simp add: Let_def)
  next
    case False
    let ?w1 = "w\<lparr>outs := (outs w)(k # q \<mapsto> ?this1)\<rparr>"
    from False st(1) have i1: "inv_with ?w1 (\<lambda>_. 0)" by simp
    have "snd (handleChildDone w (k # q)) = ?w1 \<or> snd (handleChildDone w (k # q)) = snd (emitLast ?w1 (k # q) ?this1)"
      using False t by (subst handleChildDone.simps, subst handleChildDone.simps) (simp add: Let_def)
    with i1 emitLast_inv[OF i1] show ?thesis
      unfolding inv_def by metis
  qed
qed

lemma out_end_inv:
  assumes i: "inv w" and l: "live w b"
  shows "inv (snd (out_end w b))"
proof -
  from l obtain this where t: "outs w b = Some this" and pn: "parent this \<noteq> None"
    by (auto simp: live_def split: option.splits)
  let ?this1 = "this\<lparr> parent := None, remaining := remaining this - 1 \<rparr>"
  from i have iw: "inv_with w (\<lambda>_. 0)" by (simp add: inv_def)
  then have "balanced (outs w) b 0" unfolding inv_with_def by blast
  with t pn have bal: "remaining this = 1 + int (open_kids (outs w) b (spawned this))"
    by (simp add: balanced_def)
  then have op: "remaining this \<noteq> 0" by auto
  from bal have bal1: "remaining ?this1 =
      (if parent ?this1 = None then 0 else 1) + int (open_kids (outs w) b (spawned this))"
    by simp
  note st = settle[OF iw _ t _ op bal1, simplified]
  show ?thesis
  proof (cases "remaining this - 1 = 0")
    case False
    let ?w1 = "w\<lparr>outs := (outs w)(b \<mapsto> ?this1)\<rparr>"
    from False st(1) have i1: "inv_with ?w1 (\<lambda>_. 0)" by simp
    have "snd (out_end w b) = ?w1 \<or> snd (out_end w b) = snd (emitLast ?w1 b ?this1)"
      using False t by (simp add: out_end_def Let_def)
    with i1 emitLast_inv[OF i1] show ?thesis
      unfolding inv_def by metis
  next
    case True
    show ?thesis
    proof (cases b)
      case Nil
      with st(3)[of "Result []"] True t show ?thesis
        by (simp add: out_end_def inv_def doFinish_world Let_def)
    next
      case (Cons k q)
      with st(2)[of k q] True have
        i2: "inv_with (w\<lparr>outs := (outs w)(b \<mapsto> ?this1)\<rparr>) (\<lambda>b. if b = q then 1 else 0)"
        and e: "outs w q \<noteq> None" by simp_all
      from e Cons have e': "outs (w\<lparr>outs := (outs w)(b \<mapsto> ?this1)\<rparr>) q \<noteq> None" by simp
      from handleChildDone_inv[OF i2 e'] True t Cons show ?thesis
        by (simp add: out_end_def Let_def)
    qed
  qed
qed

lemma appendChild_nodeName:
  "nodeName (snd (appendChild h p c) r) = nodeName (h r)"
  by (auto simp: appendChild_def Let_def split: option.splits)

lemma appendChild_Normal:
  "nodeName (h p) \<noteq> Some ''textarea'' \<Longrightarrow> fst (appendChild h p c) = Normal c"
  by (auto simp: appendChild_def Let_def split: option.splits)

lemma beginAsync_world:
  assumes t: "outs w b = Some this" and ns: "\<not> sync this" and p: "parent this = Some p"
    and heap: "\<And>r. nodeName (vh w r) = None"
  shows "\<exists>h lc. (\<forall>r. nodeName (h r) = None) \<and>
     snd (beginAsync w b l) =
       w\<lparr> outs := (outs w)
              (b \<mapsto> this\<lparr> lastCount := lc, remaining := remaining this + 1,
                           spawned := Suc (spawned this) \<rparr>,
               spawned this # b \<mapsto> AsyncVDOMBuilder (fresh w)),
          vh := h, fresh := Suc (fresh w),
          emitted := emitted w @ [Emit ''beginAsync'' (AsyncInfo (spawned this # b) b)] \<rparr>"
proof -
  let ?h0 = "(vh w)(fresh w := VDocumentFragment)"
  have n0: "\<And>r. nodeName (?h0 r) = None"
    using heap by (simp add: VDocumentFragment_def VNode_init_def)
  then have f: "fst (appendChild ?h0 p (fresh w)) = Normal (fresh w)"
    by (simp add: appendChild_Normal)
  have n1: "\<And>r. nodeName (snd (appendChild ?h0 p (fresh w)) r) = None"
    using n0 by (simp add: appendChild_nodeName)
  obtain r h1 where a: "appendChild ?h0 p (fresh w) = (r, h1)" by (cases "appendChild ?h0 p (fresh w)")
  with f n1 have r: "r = Normal (fresh w)" and h1: "\<And>x. nodeName (h1 x) = None" by simp_all
  show ?thesis
    apply (rule exI[of _ h1])
    apply (rule exI[of _ "if l then lastCount this + 1 else lastCount this"])
    using t ns p a r h1
    by (simp add: beginAsync_def Let_def events_emit_def)
qed

lemma beginAsync_inv:
  assumes i: "inv w" and l: "live w b"
  shows "inv (snd (beginAsync w b opt))"
proof -
  from l obtain this p where t: "outs w b = Some this" and pn: "parent this = Some p"
    by (auto simp: live_def split: option.splits)
  from i have iw: "inv_with w (\<lambda>_. 0)" by (simp add: inv_def)
  then have balw: "\<And>b. balanced (outs w) b 0"
    and ex: "\<And>b k. outs w (k # b) \<noteq> None \<Longrightarrow> \<exists>this. outs w b = Some this \<and> k < spawned this"
    and root: "outs w [] \<noteq> None"
    and fin: "finished w \<longleftrightarrow> \<not> is_open (outs w) []"
    and fcount: "finishes w = (if finished w then 1 else 0)"
    and heap: "\<And>r. nodeName (vh w r) = None"
    unfolding inv_with_def by blast+
  show ?thesis
  proof (cases "sync this")
    case True
    with t i show ?thesis by (simp add: beginAsync_def)
  next
    case False
    let ?n = "spawned this"
    let ?c = "?n # b"
    from beginAsync_world[OF t False pn heap, of opt] obtain h lc where
      hn: "\<And>r. nodeName (h r) = None" and
      w': "snd (beginAsync w b opt) =
       w\<lparr> outs := (outs w)
              (b \<mapsto> this\<lparr> lastCount := lc, remaining := remaining this + 1,
                           spawned := Suc ?n \<rparr>,
               ?c \<mapsto> AsyncVDOMBuilder (fresh w)),
          vh := h, fresh := Suc (fresh w),
          emitted := emitted w @ [Emit ''beginAsync'' (AsyncInfo ?c b)] \<rparr>"
      by blast
    let ?this2 = "this\<lparr> lastCount := lc, remaining := remaining this + 1, spawned := Suc ?n \<rparr>"
    let ?os = "outs w"
    let ?os' = "(outs w)(b \<mapsto> ?this2, ?c \<mapsto> AsyncVDOMBuilder (fresh w))"
    from balw[of b] t pn have bal: "remaining this = 1 + int (open_kids ?os b ?n)"
      by (simp add: balanced_def)
    have cnew: "?os ?c = None"
    proof (rule ccontr)
      assume "?os ?c \<noteq> None"
      from ex[OF this] t show False by simp
    qed
    have opb: "is_open ?os b" using t bal by (simp add: is_open_def)
    have open': "\<And>x. is_open ?os' x = (if x = ?c then True else is_open ?os x)"
      using opb bal by (auto simp: is_open_def AsyncVDOMBuilder_def)
    have kids_other: "\<And>b' n. b' \<noteq> b \<Longrightarrow> open_kids ?os' b' n = open_kids ?os b' n"
      by (rule open_kids_cong) (simp add: open')
    have kids_b: "open_kids ?os' b (Suc ?n) = open_kids ?os b ?n + 1"
      by (rule open_kids_spawn) (simp_all add: open')
    have kids_c: "open_kids ?os' ?c 0 = 0" by (simp add: open_kids_def)
    have bal': "\<And>x. balanced ?os' x 0"
    proof -
      fix x
      show "balanced ?os' x 0"
      proof (cases "x = b")
        case True
        then show ?thesis using bal kids_b pn by (simp add: balanced_def)
      next
        case xb: False
        show ?thesis
        proof (cases "x = ?c")
          case True
          then show ?thesis using kids_c by (simp add: balanced_def AsyncVDOMBuilder_def)
        next
          case False
          with xb have "?os' x = ?os x" by simp
          with balw[of x] kids_other[OF xb] show ?thesis
            using balanced_cong[of ?os' x ?os 0] by simp
        qed
      qed
    qed
    have ex': "\<And>x k. ?os' (k # x) \<noteq> None \<Longrightarrow> \<exists>this. ?os' x = Some this \<and> k < spawned this"
    proof -
      fix x k assume a: "?os' (k # x) \<noteq> None"
      show "\<exists>this. ?os' x = Some this \<and> k < spawned this"
      proof (cases "k # x = ?c")
        case True
        then show ?thesis by simp
      next
        case False
        with a t have "?os (k # x) \<noteq> None" by (auto split: if_splits)
        from ex[OF this] obtain that where th: "?os x = Some that" "k < spawned that" by blast
        have "x \<noteq> ?c" using th cnew by auto
        with th t show ?thesis by (cases "x = b") auto
      qed
    qed
    have "inv_with (snd (beginAsync w b opt)) (\<lambda>_. 0)"
      unfolding w'
    proof (rule inv_withI)
      show "\<And>x k. outs (w\<lparr> outs := ?os', vh := h, fresh := Suc (fresh w),
          emitted := emitted w @ [Emit ''beginAsync'' (AsyncInfo ?c b)] \<rparr>) (k # x) \<noteq> None \<Longrightarrow>
         \<exists>this. outs (w\<lparr> outs := ?os', vh := h, fresh := Suc (fresh w),
          emitted := emitted w @ [Emit ''beginAsync'' (AsyncInfo ?c b)] \<rparr>) x = Some this \<and> k < spawned this"
        using ex' by simp
      show "\<And>x. balanced (outs (w\<lparr> outs := ?os', vh := h, fresh := Suc (fresh w),
          emitted := emitted w @ [Emit ''beginAsync'' (AsyncInfo ?c b)] \<rparr>)) x 0"
        using bal' by simp
    qed (use root fin fcount hn open' in \<open>simp_all add: finishes_def\<close>)
    then show ?thesis by (simp add: inv_def)
  qed
qed

lemma out_error_inv:
  assumes i: "inv w" and l: "live w b"
  shows "inv (snd (out_error w b e))"
proof -
  let ?w1 = "w\<lparr> emitted := emitted w @ [Emit ''error'' (Val e)] \<rparr>"
  have w1: "snd (events_emit w ''error'' (Val e)) = ?w1"
    by (simp add: events_emit_def Let_def)
  have "inv ?w1" using i inv_with_log[of w "\<lambda>_. 0" "Emit ''error'' (Val e)"]
    by (simp add: inv_def)
  moreover have "live ?w1 b" using l by (simp add: live_def)
  ultimately have "inv (snd (out_end ?w1 b))" by (rule out_end_inv)
  then show ?thesis
    using w1 by (simp add: out_error_def split_beta Let_def)
qed

lemma field_update_inv:
  assumes i: "inv w" and t: "outs w b = Some this"
    and r: "remaining this' = remaining this" and p: "parent this' = parent this"
    and s: "spawned this' = spawned this"
  shows "inv (w\<lparr> outs := (outs w)(b \<mapsto> this') \<rparr>)"
proof -
  let ?os = "outs w" and ?os' = "(outs w)(b \<mapsto> this')"
  from i have iw: "inv_with w (\<lambda>_. 0)" by (simp add: inv_def)
  then have balw: "\<And>b. balanced (outs w) b 0"
    and ex: "\<And>b k. outs w (k # b) \<noteq> None \<Longrightarrow> \<exists>this. outs w b = Some this \<and> k < spawned this"
    and root: "outs w [] \<noteq> None"
    and fin: "finished w \<longleftrightarrow> \<not> is_open (outs w) []"
    and fcount: "finishes w = (if finished w then 1 else 0)"
    and heap: "\<And>r. nodeName (vh w r) = None"
    unfolding inv_with_def by blast+
  have same: "\<And>c. is_open ?os' c = is_open ?os c"
    using t r by (simp add: is_open_def)
  have kids: "\<And>x n. open_kids ?os' x n = open_kids ?os x n"
    by (rule open_kids_cong) (rule same)
  have bal': "\<And>x. balanced ?os' x 0"
  proof -
    fix x show "balanced ?os' x 0"
      using balw[of x] t r p s kids
      by (cases "x = b") (simp_all add: balanced_def split: option.splits)
  qed
  have ex': "\<And>x k. ?os' (k # x) \<noteq> None \<Longrightarrow> \<exists>this. ?os' x = Some this \<and> k < spawned this"
  proof -
    fix x k assume a: "?os' (k # x) \<noteq> None"
    then have "?os (k # x) \<noteq> None" using t by (auto split: if_splits)
    from ex[OF this] obtain that where "?os x = Some that" "k < spawned that" by blast
    then show "\<exists>this. ?os' x = Some this \<and> k < spawned this"
      using t s by (cases "x = b") auto
  qed
  have "inv_with (w\<lparr> outs := ?os' \<rparr>) (\<lambda>_. 0)"
  proof (rule inv_withI)
    show "\<And>x k. outs (w\<lparr> outs := ?os' \<rparr>) (k # x) \<noteq> None \<Longrightarrow>
         \<exists>this. outs (w\<lparr> outs := ?os' \<rparr>) x = Some this \<and> k < spawned this"
      using ex' by simp
    show "\<And>x. balanced (outs (w\<lparr> outs := ?os' \<rparr>)) x 0" using bal' by simp
  qed (use root fin fcount heap same in \<open>simp_all add: finishes_def\<close>)
  then show ?thesis by (simp add: inv_def)
qed

lemma out_sync_inv: "inv w \<Longrightarrow> inv (out_sync w b)"
  by (auto simp: out_sync_def intro: field_update_inv split: option.splits)

lemma listeners_inv: "inv w \<Longrightarrow> inv (w\<lparr> listeners := f \<rparr>)"
  by (simp add: inv_def inv_with_def finishes_def)

lemma out_on_inv: "inv w \<Longrightarrow> inv (out_on w b ev)"
  by (auto simp: out_on_def intro: field_update_inv listeners_inv split: option.splits)

lemma step_inv: "inv w \<Longrightarrow> permitted w x \<Longrightarrow> inv (step w x)"
  by (cases x) (simp_all add: beginAsync_inv out_end_inv out_error_inv out_sync_inv out_on_inv)

lemma run_inv: "inv w \<Longrightarrow> conforming w ops \<Longrightarrow> inv (run w ops)"
  by (induction ops arbitrary: w) (simp_all add: step_inv)

lemma createOut_inv: "inv createOut"
  unfolding inv_def
proof (rule inv_withI)
  show "\<And>b. balanced (outs createOut) b 0"
    by (simp add: balanced_def createOut_def AsyncVDOMBuilder_def open_kids_def)
qed (simp_all add: createOut_def AsyncVDOMBuilder_def is_open_def finishes_def heap_simps)

lemma handleChildDone_outs_longer:
  "length p < length c \<Longrightarrow> outs (snd (handleChildDone w p)) c = outs w c"
proof (induction p arbitrary: w)
  case Nil
  then show ?case
    by (subst handleChildDone.simps)
       (auto simp: Let_def doFinish_world emitLast_def split: option.splits)
next
  case (Cons k q)
  then have "length q < length c" by simp
  note ih = Cons.IH[OF this]
  from Cons.prems show ?case
    by (subst handleChildDone.simps)
       (auto simp: Let_def emitLast_def ih split: option.splits)
qed

lemma handleChildDone_self:
  "outs w p = Some that \<Longrightarrow>
   outs (snd (handleChildDone w p)) p = Some (that\<lparr> remaining := remaining that - 1 \<rparr>)"
  by (cases p; subst handleChildDone.simps)
     (auto simp: Let_def doFinish_world emitLast_def handleChildDone_outs_longer split: option.splits)

lemma out_end_self:
  "outs w b = Some this \<Longrightarrow>
   outs (snd (out_end w b)) b = Some (this\<lparr> parent := None, remaining := remaining this - 1 \<rparr>)"
  by (cases b)
     (auto simp: out_end_def Let_def doFinish_world emitLast_def handleChildDone_outs_longer
           split: option.splits)

lemma out_end_parent:
  assumes "outs w (k # q) = Some this" and "outs w q = Some that"
  shows "outs (snd (out_end w (k # q))) q =
     Some (if remaining this = 1 then that\<lparr> remaining := remaining that - 1 \<rparr> else that)"
  using assms
  by (auto simp: out_end_def Let_def emitLast_def handleChildDone_self split: option.splits)

lemma beginAsync_self:
  assumes "outs w b = Some this" and "\<not> sync this"
  shows "map_option remaining (outs (snd (beginAsync w b l)) b) = Some (remaining this + 1)"
  using assms
  by (auto simp: beginAsync_def Let_def events_emit_def split_beta split: option.splits completion.splits)

lemma inv_finished_all_done:
  assumes i: "inv w" and f: "finished w"
  shows "outs w b = Some this \<Longrightarrow> remaining this = 0 \<and> parent this = None"
proof (induction b arbitrary: this)
  case Nil
  from i have fin: "finished w \<longleftrightarrow> \<not> is_open (outs w) []"
    and bal: "balanced (outs w) [] 0"
    unfolding inv_def inv_with_def by blast+
  from fin f Nil have "remaining this = 0" by (simp add: is_open_def)
  with bal Nil show ?case by (auto simp: balanced_def split: if_splits)
next
  case (Cons k q)
  from i have ex: "outs w (k # q) \<noteq> None \<Longrightarrow> \<exists>this. outs w q = Some this \<and> k < spawned this"
    and balq: "balanced (outs w) q 0" and bal: "balanced (outs w) (k # q) 0"
    unfolding inv_def inv_with_def by blast+
  from ex Cons.prems obtain that where q: "outs w q = Some that" and kn: "k < spawned that"
    by auto
  from Cons.IH[OF q] have "remaining that = 0" by simp
  with balq q have "open_kids (outs w) q (spawned that) = 0"
    by (auto simp: balanced_def split: if_splits)
  then have "{j. j < spawned that \<and> is_open (outs w) (j # q)} = {}"
    unfolding open_kids_def by simp
  with kn have "\<not> is_open (outs w) (k # q)" by blast
  with Cons.prems have "remaining this = 0" by (simp add: is_open_def)
  with bal Cons.prems show ?case by (auto simp: balanced_def split: if_splits)
qed


text \<open>
  The claim C7 as stated holds for no run that uses a builder after its
  \<^verbatim>\<open>end()\<close>.  Ending a child twice while its own child is open finishes the root
  with that grandchild still open (count 1, not ended); and \<^verbatim>\<open>beginAsync\<close> on the
  ended root throws only after incrementing the count, so that a second \<^verbatim>\<open>end()\<close>
  emits \<^verbatim>\<open>finish\<close> a second time.
\<close>

theorem finish_while_branch_open:
  "finished (run createOut [BeginAsync [] False, BeginAsync [0] False, End [], End [0], End [0]])
   \<and> live (run createOut [BeginAsync [] False, BeginAsync [0] False, End [], End [0], End [0]])
        [0, 0]
   \<and> map_option remaining
        (outs (run createOut [BeginAsync [] False, BeginAsync [0] False, End [], End [0], End [0]])
           [0, 0]) = Some 1
   \<and> fst (beginAsync (run createOut [End []]) [] False) = Throw TypeError
   \<and> finishes (run createOut [End [], BeginAsync [] False, End []]) = 2"
  by (simp add: builder_simps)

text \<open>
  Claim C7, amended: in every run that conforms to the protocol (no
  \<^verbatim>\<open>beginAsync\<close>, \<^verbatim>\<open>end\<close> or \<^verbatim>\<open>error\<close> on a builder after its \<^verbatim>\<open>end()\<close>; \<^verbatim>\<open>on\<close>
  and \<^verbatim>\<open>sync\<close> at any time), whatever the order of the calls, \<^verbatim>\<open>finish\<close> is
  emitted at most once, it has been emitted exactly when the state is finished,
  which is exactly when the count of the root is zero, and then every builder has
  count zero and has been ended: no branch is open.  In every world,
  \<^verbatim>\<open>beginAsync\<close> on a builder that is not in sync mode increments its count by one,
  \<^verbatim>\<open>end()\<close> decrements the count of its own builder by one, and the count of the
  parent builder is decremented by one when the count of the ended builder reached
  zero and is unchanged otherwise.
\<close>

theorem finish_gating:
  "(conforming createOut ops \<longrightarrow>
      finishes (run createOut ops) \<le> 1
      \<and> (finishes (run createOut ops) = 1 \<longleftrightarrow> finished (run createOut ops))
      \<and> (finished (run createOut ops) \<longleftrightarrow>
           (\<exists>this. outs (run createOut ops) [] = Some this \<and> remaining this = 0))
      \<and> (finished (run createOut ops) \<longrightarrow>
           (\<forall>b this. outs (run createOut ops) b = Some this \<longrightarrow>
              remaining this = 0 \<and> parent this = None)))
   \<and> (outs w b = Some this \<and> \<not> sync this \<longrightarrow>
        map_option remaining (outs (snd (beginAsync w b l)) b) = Some (remaining this + 1))
   \<and> (outs w b = Some this \<longrightarrow>
        map_option remaining (outs (snd (out_end w b)) b) = Some (remaining this - 1))
   \<and> (outs w (k # q) = Some this \<and> outs w q = Some that \<longrightarrow>
        map_option remaining (outs (snd (out_end w (k # q))) q) =
          Some (if remaining this = 1 then remaining that - 1 else remaining that))"
proof -
  have a: "conforming createOut ops \<longrightarrow>
      finishes (run createOut ops) \<le> 1
      \<and> (finishes (run createOut ops) = 1 \<longleftrightarrow> finished (run createOut ops))
      \<and> (finished (run createOut ops) \<longleftrightarrow>
           (\<exists>this. outs (run createOut ops) [] = Some this \<and> remaining this = 0))
      \<and> (finished (run createOut ops) \<longrightarrow>
           (\<forall>b this. outs (run createOut ops) b = Some this \<longrightarrow>
              remaining this = 0 \<and> parent this = None))"
  proof
    assume c: "conforming createOut ops"
    let ?w = "run createOut ops"
    have i: "inv ?w" using createOut_inv c by (rule run_inv)
    then have root: "outs ?w [] \<noteq> None"
      and fin: "finished ?w \<longleftrightarrow> \<not> is_open (outs ?w) []"
      and fcount: "finishes ?w = (if finished ?w then 1 else 0)"
      unfolding inv_def inv_with_def by blast+
    have 1: "finishes ?w \<le> 1" using fcount by simp
    have 2: "finishes ?w = 1 \<longleftrightarrow> finished ?w" using fcount by simp
    have 3: "finished ?w \<longleftrightarrow> (\<exists>this. outs ?w [] = Some this \<and> remaining this = 0)"
      using fin root by (auto simp: is_open_def split: option.splits)
    have 4: "finished ?w \<longrightarrow>
           (\<forall>b this. outs ?w b = Some this \<longrightarrow> remaining this = 0 \<and> parent this = None)"
      using inv_finished_all_done[OF i] by blast
    from 1 2 3 4 show "finishes ?w \<le> 1
      \<and> (finishes ?w = 1 \<longleftrightarrow> finished ?w)
      \<and> (finished ?w \<longleftrightarrow> (\<exists>this. outs ?w [] = Some this \<and> remaining this = 0))
      \<and> (finished ?w \<longrightarrow>
           (\<forall>b this. outs ?w b = Some this \<longrightarrow> remaining this = 0 \<and> parent this = None))"
      by blast
  qed
  have b: "outs w b = Some this \<and> \<not> sync this \<longrightarrow>
        map_option remaining (outs (snd (beginAsync w b l)) b) = Some (remaining this + 1)"
    using beginAsync_self by blast
  have c: "outs w b = Some this \<longrightarrow>
        map_option remaining (outs (snd (out_end w b)) b) = Some (remaining this - 1)"
    by (simp add: out_end_self)
  have d: "outs w (k # q) = Some this \<and> outs w q = Some that \<longrightarrow>
        map_option remaining (outs (snd (out_end w (k # q))) q) =
          Some (if remaining this = 1 then remaining that - 1 else remaining that)"
    by (simp add: out_end_parent)
  from a b c d show ?thesis by blast
qed


theorem finish_gating_witness:
  "conforming createOut async_trace
   \<and> finished (run createOut async_trace)
   \<and> finishes (run createOut async_trace) = 1
   \<and> \<not> finished (run createOut (butlast async_trace))
   \<and> finishes (run createOut (butlast async_trace)) = 0
   \<and> map_option remaining (outs one_child []) = Some 2
   \<and> map_option remaining (outs (snd (beginAsync one_child [0] False)) [0]) = Some 2
   \<and> map_option remaining (outs (snd (out_end one_child [0])) [0]) = Some 0
   \<and> map_option remaining (outs (snd (out_end one_child [0])) []) = Some 1"
proof -
  have c: "conforming createOut async_trace"
    by (simp add: async_trace_def builder_simps)
  have f: "finished (run createOut async_trace)"
    by (simp add: async_trace_def builder_simps)
  have p: "\<not> finished (run createOut (butlast async_trace))
     \<and> finishes (run createOut (butlast async_trace)) = 0"
    by (simp add: async_trace_def builder_simps)
  have o: "outs one_child [0] = Some (AsyncVDOMBuilder 1)
     \<and> outs one_child [] = Some ((AsyncVDOMBuilder 0)\<lparr> remaining := 2, spawned := 1 \<rparr>)
     \<and> \<not> sync (AsyncVDOMBuilder 1)"
    by (simp add: one_child_def builder_simps)
  have r: "remaining (AsyncVDOMBuilder 1) = 1
     \<and> remaining ((AsyncVDOMBuilder 0)\<lparr> remaining := 2, spawned := 1 \<rparr>) = 2"
    by (simp add: AsyncVDOMBuilder_def)
  note t = finish_gating[of async_trace one_child "[0]" "AsyncVDOMBuilder 1" False 0 "[]"
      "(AsyncVDOMBuilder 0)\<lparr> remaining := 2, spawned := 1 \<rparr>"]
  from t c f have g: "finishes (run createOut async_trace) = 1" by blast
  from t o r have
    "map_option remaining (outs (snd (beginAsync one_child [0] False)) [0]) = Some 2
     \<and> map_option remaining (outs (snd (out_end one_child [0])) [0]) = Some 0
     \<and> map_option remaining (outs (snd (out_end one_child [0])) []) = Some 1"
    by simp
  with c f g p o r show ?thesis by simp
qed

lemma events_emit_outs: "outs (snd (events_emit w t a)) = outs w"
  by (simp add: events_emit_def Let_def)

lemma root_sync_only_log:
  "root_sync_only (w\<lparr> emitted := l \<rparr>) = root_sync_only w"
  "root_sync_only (w\<lparr> finished := f \<rparr>) = root_sync_only w"
  "root_sync_only (w\<lparr> listeners := g \<rparr>) = root_sync_only w"
  by (simp_all add: root_sync_only_def)

lemma out_end_root_sync_only:
  "root_sync_only w \<Longrightarrow> root_sync_only (snd (out_end w b))"
  by (cases b)
     (auto simp: root_sync_only_def out_end_def Let_def doFinish_world emitLast_def
           split: option.splits)

lemma step_root_sync_only:
  "root_sync_only w \<Longrightarrow> root_sync_only (step w x)"
proof (cases x)
  case (BeginAsync b l)
  assume "root_sync_only w"
  then show ?thesis using BeginAsync
    by (cases b) (auto simp: root_sync_only_def beginAsync_def)
next
  case (End b)
  assume "root_sync_only w"
  then show ?thesis using End by (simp add: out_end_root_sync_only)
next
  case (ErrorOp b e)
  assume r: "root_sync_only w"
  have "root_sync_only (snd (events_emit w ''error'' (Val e)))"
    using r by (simp add: root_sync_only_def events_emit_outs)
  then show ?thesis using ErrorOp
    by (simp add: out_error_def split_beta out_end_root_sync_only)
next
  case (Sync b)
  assume "root_sync_only w"
  then show ?thesis using Sync
    by (cases b) (auto simp: root_sync_only_def out_sync_def split: option.splits)
next
  case (On b ev)
  assume "root_sync_only w"
  then show ?thesis using On
    by (cases b) (auto simp: root_sync_only_def out_on_def split: option.splits)
qed

lemma run_root_sync_only:
  "root_sync_only w \<Longrightarrow> root_sync_only (run w ops)"
  by (induction ops arbitrary: w) (simp_all add: step_root_sync_only)

lemma rerender_root_sync_only: "root_sync_only (rerender renderer)"
  unfolding rerender_def
  by (rule run_root_sync_only)
     (simp add: root_sync_only_def out_sync_def createOut_def AsyncVDOMBuilder_def)





text \<open>
  Claim C10.  \<^verbatim>\<open>beginAsync\<close> on a builder in sync mode throws the \<^verbatim>\<open>Error\<close> and
  changes nothing: no count is incremented and no builder is created.  Whatever
  calls the renderer of a re-render makes, the only builder of the re-render is
  its root, the root is in sync mode, and \<^verbatim>\<open>beginAsync\<close> on it throws.
\<close>

theorem beginAsync_in_sync_mode:
  "(outs w b = Some this \<and> sync this \<longrightarrow> beginAsync w b l = (Throw sync_error, w))
   \<and> (outs (rerender renderer) b = Some this \<longrightarrow> b = [] \<and> sync this)
   \<and> outs (rerender renderer) [] \<noteq> None
   \<and> beginAsync (rerender renderer) [] l = (Throw sync_error, rerender renderer)"
proof -
  have a: "outs w b = Some this \<and> sync this \<longrightarrow> beginAsync w b l = (Throw sync_error, w)"
    by (simp add: beginAsync_def)
  from rerender_root_sync_only[of renderer] obtain root where
    r: "outs (rerender renderer) [] = Some root" "sync root"
    and o: "\<And>b. b \<noteq> [] \<Longrightarrow> outs (rerender renderer) b = None"
    unfolding root_sync_only_def by blast
  have b: "outs (rerender renderer) b = Some this \<longrightarrow> b = [] \<and> sync this"
    using r o[of b] by (cases "b = []") auto
  have c: "beginAsync (rerender renderer) [] l = (Throw sync_error, rerender renderer)"
    using r by (simp add: beginAsync_def)
  from a b c r show ?thesis by simp
qed


theorem beginAsync_in_sync_mode_witness:
  "outs (out_sync createOut []) [] = Some ((AsyncVDOMBuilder 0)\<lparr> sync := True \<rparr>)
   \<and> beginAsync (out_sync createOut []) [] False = (Throw sync_error, out_sync createOut [])
   \<and> beginAsync (rerender [BeginAsync [] False, End []]) [] True =
       (Throw sync_error, rerender [BeginAsync [] False, End []])
   \<and> fst (beginAsync createOut [] False) = Normal [0]"
proof -
  have a: "outs (out_sync createOut []) [] = Some ((AsyncVDOMBuilder 0)\<lparr> sync := True \<rparr>)
      \<and> sync ((AsyncVDOMBuilder 0)\<lparr> sync := True \<rparr>)"
    by (simp add: builder_simps)
  have b: "fst (beginAsync createOut [] False) = Normal [0]"
    by (simp add: builder_simps)
  from beginAsync_in_sync_mode[of "out_sync createOut []" "[]"
      "(AsyncVDOMBuilder 0)\<lparr> sync := True \<rparr>" False "[BeginAsync [] False, End []]"]
    beginAsync_in_sync_mode[of "out_sync createOut []" "[]"
      "(AsyncVDOMBuilder 0)\<lparr> sync := True \<rparr>" True "[BeginAsync [] False, End []]"]
    a b
  show ?thesis by simp
qed


section \<open>Component state and update\<close>

text \<open>
  \<^verbatim>\<open>State\<close> tracks the changes of a component's state.  \<^verbatim>\<open>___raw\<close> is the current
  state, \<^verbatim>\<open>___old\<close> the state object before the first change, \<^verbatim>\<open>___changes\<close> the
  object that \<^verbatim>\<open>___set\<close> fills with the changed keys and their new values.
  \<^verbatim>\<open>
  function State(component) {
      this.___component = component;
      this.___raw = {};
      this.___dirty = false;
      this.___old = null;
      this.___changes = null;
      this.___forced = null;
      Object.seal(this);
  }
  ___reset: function() {
      var self = this;
      self.___dirty = false;
      self.___old = null;
      self.___changes = null;
      self.___forced = null;
  }
  \<close>
  A state value is \<^verbatim>\<open>undefined\<close>, a function the user wrote, a member of
  \<^verbatim>\<open>Object.prototype\<close>, or any other value (\<open>Data\<close>: a primitive or an object that
  cannot be called).  \<^verbatim>\<open>___raw\<close> and \<^verbatim>\<open>___old\<close> are the own properties of a plain
  object; \<^verbatim>\<open>___changes\<close> is the list of the own enumerable properties of a plain
  object in the order in which \<^verbatim>\<open>for (var propName in stateChanges)\<close> visits them.
  The prototype of the three objects is \<^verbatim>\<open>Object.prototype\<close>, which has no
  enumerable property.
\<close>

datatype 'v jsvalue = Undefined | Data 'v | Function nat | Builtin string

record 'v State =
  s_raw :: "string \<rightharpoonup> 'v jsvalue"
  s_dirty :: bool
  s_old :: "(string \<rightharpoonup> 'v jsvalue) option"
  s_changes :: "(string \<times> 'v jsvalue) list option"
  s_forced :: "string list option"

definition State_new :: "'v State" where
  "State_new = \<lparr> s_raw = Map.empty, s_dirty = False, s_old = None, s_changes = None, s_forced = None \<rparr>"



text \<open>
  A component, as far as \<^verbatim>\<open>update()\<close> reads it: the flags \<^verbatim>\<open>___destroyed\<close>,
  \<^verbatim>\<open>___dirty\<close> (the input changed) and \<^verbatim>\<open>___updateQueued\<close>, the state, what
  \<^verbatim>\<open>component[n]\<close> is for a name \<open>n\<close> (nothing or a falsy value, a truthy value that
  cannot be called, or a method), what its \<^verbatim>\<open>shouldUpdate\<close> answers and whether it
  has a \<^verbatim>\<open>___renderer\<close>.  The calls of update handlers, of lifecycle events and of
  the re-render (\<^verbatim>\<open>___rerender\<close> inside \<^verbatim>\<open>___batchUpdate\<close>, which is where the
  renderer and \<^verbatim>\<open>morphdom\<close> run) are recorded in \<open>actions\<close>.
\<close>

datatype member = Absent | NotCallable | Method

datatype 'v action = Handler string "'v jsvalue" "'v jsvalue" | Lifecycle string | Rerender

record 'v Component =
  destroyed :: bool
  dirty :: bool
  updateQueued :: bool
  renderInput :: "string option"
  state :: "'v State option"
  methods :: "string \<Rightarrow> member"
  shouldUpdate :: bool
  renderer :: bool
  actions :: "'v action list"















subsection \<open>Properties of update\<close>











end
